theory Spec2Isabelle
  imports Main "HOL-Library.Monad_Syntax"
begin

section \<open>JavaScript arrays of numbers\<close>

text \<open>
  The program is the file \<open>index.js\<close>: the class \<open>SegmentTree\<close> (a range-maximum tree
  with lazy propagation, stored in two arrays) and the class \<open>SeatBookingSystem\<close> (the
  booking ledger built on one tree for each seat and one aggregate tree). Every number the
  two classes handle is an integer (seat and station indices, deltas of +1 and -1, counts);
  they are modelled by \<open>int\<close>, node positions by \<open>nat\<close> (the root is 0 and the children of
  \<open>node\<close> are \<open>2 * node + 1\<close> and \<open>2 * node + 2\<close>). Methods that mutate \<open>this\<close> take the
  state and return the new one.

  The two arrays of a segment tree are allocated once, with \<open>new Array(4 * n).fill(0)\<close>,
  and hold integers. A JavaScript read outside the allocated indices yields \<open>undefined\<close>
  and a write there grows the array; neither raises. The model makes such an access
  visible instead: \<open>rd\<close> and \<open>wr\<close> answer \<open>None\<close> as soon as the index is not an
  allocated one, and every operation built on them propagates \<open>None\<close>. An operation that
  answers \<open>Some\<close> has therefore touched allocated cells only.
\<close>

definition rd :: "'a list \<Rightarrow> nat \<Rightarrow> 'a option" where
  "rd a i = (if i < length a then Some (a ! i) else None)"

definition wr :: "'a list \<Rightarrow> nat \<Rightarrow> 'a \<Rightarrow> 'a list option" where
  "wr a i v = (if i < length a then Some (a[i := v]) else None)"

section \<open>The class SegmentTree\<close>

text \<open>The fields \<open>n\<close>, \<open>tree\<close> and \<open>lazy\<close>; the first is named \<open>seg_n\<close> here.\<close>

record SegmentTree =
  seg_n :: int
  tree :: "int list"
  lazy :: "int list"

text \<open>
  The constructor. \<open>new Array(len)\<close> throws a RangeError when \<open>len\<close> is negative or
  exceeds \<open>2^32 - 1\<close>, the longest array of the language; that is the \<open>None\<close> of the
  model.
\<close>

definition SegmentTree_new :: "int \<Rightarrow> SegmentTree option" where
  "SegmentTree_new k =
     (if 4 * k < 0 \<or> 4 * k > 2 ^ 32 - 1 then None
      else Some \<lparr>seg_n = k, tree = replicate (nat (4 * k)) 0, lazy = replicate (nat (4 * k)) 0\<rparr>)"

text \<open>
  \<open>pushDown(node)\<close>. The source reads \<open>this.lazy[node]\<close> anew in each of its four
  additions; the cell is not written before the final reset (both children differ from
  \<open>node\<close>), so the model reads it once.
\<close>

definition pushDown :: "SegmentTree \<Rightarrow> nat \<Rightarrow> SegmentTree option" where
  "pushDown t node = do {
     z \<leftarrow> rd (lazy t) node;
     if z \<noteq> 0 then do {
       let leftChild = 2 * node + 1;
       let rightChild = 2 * node + 2;
       tl \<leftarrow> rd (tree t) leftChild;
       tree1 \<leftarrow> wr (tree t) leftChild (tl + z);
       tr \<leftarrow> rd tree1 rightChild;
       tree2 \<leftarrow> wr tree1 rightChild (tr + z);
       ll \<leftarrow> rd (lazy t) leftChild;
       lazy1 \<leftarrow> wr (lazy t) leftChild (ll + z);
       lr \<leftarrow> rd lazy1 rightChild;
       lazy2 \<leftarrow> wr lazy1 rightChild (lr + z);
       lazy3 \<leftarrow> wr lazy2 node 0;
       Some (t\<lparr>tree := tree2, lazy := lazy3\<rparr>)
     } else Some t
   }"

text \<open>
  \<open>update(l, r, val, node, start, end)\<close> with all six parameters explicit;
  \<open>Math.floor((start + end) / 2)\<close> is \<open>div\<close> on integers.
\<close>

function update :: "SegmentTree \<Rightarrow> int \<Rightarrow> int \<Rightarrow> int \<Rightarrow> nat \<Rightarrow> int \<Rightarrow> int \<Rightarrow> SegmentTree option" where
  "update t l r val node start en =
     (if r \<le> start \<or> en \<le> l then Some t
      else if l \<le> start \<and> en \<le> r then do {
        tv \<leftarrow> rd (tree t) node;
        tree1 \<leftarrow> wr (tree t) node (tv + val);
        lv \<leftarrow> rd (lazy t) node;
        lazy1 \<leftarrow> wr (lazy t) node (lv + val);
        Some (t\<lparr>tree := tree1, lazy := lazy1\<rparr>)
      } else do {
        t1 \<leftarrow> pushDown t node;
        let mid = (start + en) div 2;
        t2 \<leftarrow> update t1 l r val (2 * node + 1) start mid;
        t3 \<leftarrow> update t2 l r val (2 * node + 2) mid en;
        let leftChild = 2 * node + 1;
        let rightChild = 2 * node + 2;
        tl \<leftarrow> rd (tree t3) leftChild;
        ll \<leftarrow> rd (lazy t3) leftChild;
        tr \<leftarrow> rd (tree t3) rightChild;
        lr \<leftarrow> rd (lazy t3) rightChild;
        tree4 \<leftarrow> wr (tree t3) node (max (tl + ll) (tr + lr));
        Some (t3\<lparr>tree := tree4\<rparr>)
      })"
  by pat_completeness auto
termination
  by (relation "measure (\<lambda>(t, l, r, val, node, start, en). nat (en - start))") auto

text \<open>\<open>query(l, r, node, start, end)\<close>; it returns the maximum and the tree it leaves.\<close>

function query :: "SegmentTree \<Rightarrow> int \<Rightarrow> int \<Rightarrow> nat \<Rightarrow> int \<Rightarrow> int \<Rightarrow> (int \<times> SegmentTree) option" where
  "query t l r node start en =
     (if r \<le> start \<or> en \<le> l then Some (0, t)
      else if l \<le> start \<and> en \<le> r then do {
        v \<leftarrow> rd (tree t) node;
        Some (v, t)
      } else do {
        t1 \<leftarrow> pushDown t node;
        let mid = (start + en) div 2;
        (leftMax, t2) \<leftarrow> query t1 l r (2 * node + 1) start mid;
        (rightMax, t3) \<leftarrow> query t2 l r (2 * node + 2) mid en;
        Some (max leftMax rightMax, t3)
      })"
  by pat_completeness auto
termination
  by (relation "measure (\<lambda>(t, l, r, node, start, en). nat (en - start))") auto

text \<open>
  The calls that leave the last three parameters to their defaults \<open>0, 0, this.n\<close>, under
  the names the specification gives them.
\<close>

definition applyRangeDelta :: "SegmentTree \<Rightarrow> int \<Rightarrow> int \<Rightarrow> int \<Rightarrow> SegmentTree option" where
  "applyRangeDelta t l r val = update t l r val 0 0 (seg_n t)"

definition queryRangeMax :: "SegmentTree \<Rightarrow> int \<Rightarrow> int \<Rightarrow> (int \<times> SegmentTree) option" where
  "queryRangeMax t l r = query t l r 0 0 (seg_n t)"

section \<open>The class SeatBookingSystem\<close>

text \<open>
  A booking record. Its \<open>timestamp\<close> (\<open>new Date()\<close>) is informational and read by no
  operation of the ledger; it is left out. The fields are prefixed because \<open>id\<close>,
  \<open>from\<close> and \<open>to\<close> are taken in Isabelle.
\<close>

record Booking =
  b_id :: int
  b_seatId :: int
  b_from :: int
  b_to :: int
  b_active :: bool

record SeatBookingSystem =
  numSeats :: int
  numStations :: int
  numSegments :: int
  seats :: "SegmentTree list"
  globalTree :: SegmentTree
  bookings :: "Booking list"
  operationCount :: int

text \<open>
  The source reports every outcome as an object \<open>{success, message, ...}\<close> and tells the
  kinds of failure apart by the message text only. The model has one constructor for each
  message template, carrying the numbers the template prints:
  \<^item> \<open>InvalidResourceId seatId\<close>: "Invalid seat ID: ..." (\<open>success: false\<close>);
  \<^item> \<open>InvalidRange l r\<close>: "Invalid station range: [l, r)" (\<open>success: false\<close>);
  \<^item> \<open>RangeConflict seatId cs\<close>: "Seat ... already booked for ..." with the printed
    pairs \<open>from + 1\<close>-\<open>to + 1\<close> of the conflicting records (\<open>success: false\<close>);
  \<^item> \<open>BookingNotFound seatId l r\<close>: "No booking found for seat ..." (\<open>success: false\<close>);
  \<^item> \<open>Booked bookingId\<close> and \<open>Cancelled\<close>: the two results with \<open>success: true\<close>.
\<close>

datatype Result =
    InvalidResourceId int
  | InvalidRange int int
  | RangeConflict int "(int \<times> int) list"
  | BookingNotFound int int int
  | Booked int
  | Cancelled

fun success :: "Result \<Rightarrow> bool" where
  "success (Booked k) = True"
| "success Cancelled = True"
| "success res = False"

text \<open>
  \<open>this.operationCount++\<close>. The counter is a double that starts at 0 and that nothing else
  writes, so it holds an integer between 0 and \<open>2^53\<close>. Below \<open>2^53\<close> the sum with 1 is
  exact; at \<open>2^53\<close> the sum \<open>2^53 + 1\<close> is not a double and rounds back to \<open>2^53\<close>, so
  the counter stays there.
\<close>

definition js_increment :: "int \<Rightarrow> int" where
  "js_increment c = (if c < 2 ^ 53 then c + 1 else c)"

text \<open>The constructor: one tree for each seat, pushed in a loop, then the global tree.\<close>

fun new_seats :: "nat \<Rightarrow> int \<Rightarrow> SegmentTree list option" where
  "new_seats 0 k = Some []"
| "new_seats (Suc i) k = do {
     t \<leftarrow> SegmentTree_new k;
     ts \<leftarrow> new_seats i k;
     Some (t # ts)
   }"

definition SeatBookingSystem_new :: "int \<Rightarrow> int \<Rightarrow> SeatBookingSystem option" where
  "SeatBookingSystem_new nSeats nStations = do {
     ss \<leftarrow> new_seats (nat nSeats) (nStations - 1);
     g \<leftarrow> SegmentTree_new (nStations - 1);
     Some \<lparr>numSeats = nSeats, numStations = nStations, numSegments = nStations - 1,
            seats = ss, globalTree = g, bookings = [], operationCount = 0\<rparr>
   }"

text \<open>
  \<open>book(seatId, l, r)\<close>. The seat's tree is an object mutated in place by \<open>query\<close> and
  \<open>update\<close>; the model writes the tree back into \<open>seats\<close> after each call.
\<close>

definition book :: "SeatBookingSystem \<Rightarrow> int \<Rightarrow> int \<Rightarrow> int \<Rightarrow> (Result \<times> SeatBookingSystem) option" where
  "book S seatId l r =
     (let S1 = S\<lparr>operationCount := js_increment (operationCount S)\<rparr> in
      if seatId < 0 \<or> seatId \<ge> numSeats S1 then Some (InvalidResourceId seatId, S1)
      else if l < 0 \<or> r > numStations S1 \<or> l \<ge> r then Some (InvalidRange l r, S1)
      else do {
        seat \<leftarrow> rd (seats S1) (nat seatId);
        (maxOccupancy, seat1) \<leftarrow> queryRangeMax seat l r;
        seats1 \<leftarrow> wr (seats S1) (nat seatId) seat1;
        let S2 = S1\<lparr>seats := seats1\<rparr>;
        if maxOccupancy > 0 then
          Some (RangeConflict seatId
                  (map (\<lambda>b. (b_from b + 1, b_to b + 1))
                     (filter (\<lambda>b. b_seatId b = seatId \<and> b_active b \<and> b_from b < r \<and> b_to b > l)
                        (bookings S2))), S2)
        else do {
          seat2 \<leftarrow> applyRangeDelta seat1 l r 1;
          seats2 \<leftarrow> wr seats1 (nat seatId) seat2;
          g \<leftarrow> applyRangeDelta (globalTree S2) l r 1;
          let booking = \<lparr>b_id = int (length (bookings S2)) + 1, b_seatId = seatId,
                          b_from = l, b_to = r, b_active = True\<rparr>;
          Some (Booked (b_id booking),
                S2\<lparr>seats := seats2, globalTree := g, bookings := bookings S2 @ [booking]\<rparr>)
        }
      })"

text \<open>
  \<open>Array.prototype.find\<close> returns the first element that satisfies the predicate;
  \<open>cancel\<close> then sets \<open>active\<close> of that very element. The model finds its position.
\<close>

fun findIndex :: "('a \<Rightarrow> bool) \<Rightarrow> 'a list \<Rightarrow> nat option" where
  "findIndex P [] = None"
| "findIndex P (x # xs) = (if P x then Some 0 else map_option Suc (findIndex P xs))"

definition cancel :: "SeatBookingSystem \<Rightarrow> int \<Rightarrow> int \<Rightarrow> int \<Rightarrow> (Result \<times> SeatBookingSystem) option" where
  "cancel S seatId l r =
     (let S1 = S\<lparr>operationCount := js_increment (operationCount S)\<rparr> in
      if seatId < 0 \<or> seatId \<ge> numSeats S1 then Some (InvalidResourceId seatId, S1)
      else if l < 0 \<or> r > numStations S1 \<or> l \<ge> r then Some (InvalidRange l r, S1)
      else
        case findIndex (\<lambda>b. b_seatId b = seatId \<and> b_from b = l \<and> b_to b = r \<and> b_active b)
               (bookings S1) of
          None \<Rightarrow> Some (BookingNotFound seatId l r, S1)
        | Some k \<Rightarrow> do {
            seat \<leftarrow> rd (seats S1) (nat seatId);
            seat1 \<leftarrow> applyRangeDelta seat l r (- 1);
            seats1 \<leftarrow> wr (seats S1) (nat seatId) seat1;
            g \<leftarrow> applyRangeDelta (globalTree S1) l r (- 1);
            Some (Cancelled,
                  S1\<lparr>seats := seats1, globalTree := g,
                      bookings := (bookings S1)[k := (bookings S1 ! k)\<lparr>b_active := False\<rparr>]\<rparr>)
          })"

text \<open>
  \<open>queryAvailable(l, r)\<close>: the loop over the seats, then the result
  \<open>{available, message}\<close>; the message of a rejected range is "Invalid station range".
\<close>

datatype QueryResult = QueryInvalidRange int int | Available "int list"

function queryAvailable_loop ::
  "SegmentTree list \<Rightarrow> int \<Rightarrow> int \<Rightarrow> int \<Rightarrow> int \<Rightarrow> int list \<Rightarrow> (int list \<times> SegmentTree list) option" where
  "queryAvailable_loop ss nSeats l r seatId available =
     (if seatId < nSeats then do {
        seat \<leftarrow> rd ss (nat seatId);
        (maxOccupancy, seat1) \<leftarrow> queryRangeMax seat l r;
        ss1 \<leftarrow> wr ss (nat seatId) seat1;
        queryAvailable_loop ss1 nSeats l r (seatId + 1)
          (if maxOccupancy = 0 then available @ [seatId] else available)
      } else Some (available, ss))"
  by pat_completeness auto
termination
  by (relation "measure (\<lambda>(ss, nSeats, l, r, seatId, available). nat (nSeats - seatId))") auto

definition queryAvailable :: "SeatBookingSystem \<Rightarrow> int \<Rightarrow> int \<Rightarrow> (QueryResult \<times> SeatBookingSystem) option" where
  "queryAvailable S l r =
     (let S1 = S\<lparr>operationCount := js_increment (operationCount S)\<rparr> in
      if l < 0 \<or> r > numStations S1 \<or> l \<ge> r then Some (QueryInvalidRange l r, S1)
      else do {
        (available, ss) \<leftarrow> queryAvailable_loop (seats S1) (numSeats S1) l r 0 [];
        Some (Available available, S1\<lparr>seats := ss\<rparr>)
      })"

definition isAvailable :: "SeatBookingSystem \<Rightarrow> int \<Rightarrow> int \<Rightarrow> int \<Rightarrow> (bool \<times> SeatBookingSystem) option" where
  "isAvailable S seatId l r =
     (if seatId < 0 \<or> seatId \<ge> numSeats S then Some (False, S)
      else if l < 0 \<or> r > numStations S \<or> l \<ge> r then Some (False, S)
      else do {
        seat \<leftarrow> rd (seats S) (nat seatId);
        (m, seat1) \<leftarrow> queryRangeMax seat l r;
        seats1 \<leftarrow> wr (seats S) (nat seatId) seat1;
        Some (m = 0, S\<lparr>seats := seats1\<rparr>)
      })"

text \<open>
  \<open>getSeatStatus(seatId)\<close>. The \<open>for\<close> loop with its \<open>break\<close> is \<open>allBooked_loop\<close>,
  which returns the final value of \<open>allBooked\<close>.
\<close>

function allBooked_loop :: "SegmentTree \<Rightarrow> int \<Rightarrow> int \<Rightarrow> (bool \<times> SegmentTree) option" where
  "allBooked_loop seat nSegments i =
     (if i < nSegments then do {
        (m, seat1) \<leftarrow> queryRangeMax seat i (i + 1);
        if m = 0 then Some (False, seat1) else allBooked_loop seat1 nSegments (i + 1)
      } else Some (True, seat))"
  by pat_completeness auto
termination
  by (relation "measure (\<lambda>(seat, nSegments, i). nat (nSegments - i))") auto

definition getSeatStatus :: "SeatBookingSystem \<Rightarrow> int \<Rightarrow> (string \<times> SeatBookingSystem) option" where
  "getSeatStatus S seatId =
     (if seatId < 0 \<or> seatId \<ge> numSeats S then Some (''available'', S)
      else do {
        seat \<leftarrow> rd (seats S) (nat seatId);
        (maxOccupancy, seat1) \<leftarrow> queryRangeMax seat 0 (numSegments S);
        if maxOccupancy = 0 then do {
          seats1 \<leftarrow> wr (seats S) (nat seatId) seat1;
          Some (''available'', S\<lparr>seats := seats1\<rparr>)
        } else do {
          (allBooked, seat2) \<leftarrow> allBooked_loop seat1 (numSegments S) 0;
          seats2 \<leftarrow> wr (seats S) (nat seatId) seat2;
          Some (if allBooked then ''booked'' else ''partial'', S\<lparr>seats := seats2\<rparr>)
        }
      })"

definition getActiveBookings :: "SeatBookingSystem \<Rightarrow> int" where
  "getActiveBookings S = int (length (filter b_active (bookings S)))"

section \<open>Notions used to state the properties\<close>

subsection \<open>Allocated arrays and node positions\<close>

text \<open>
  \<open>wf_tree\<close> is what the constructor establishes about the two arrays (both of length
  \<open>4 * n\<close>). \<open>node_ok N node s e\<close> relates a node position to the range \<open>[s, e)\<close> it
  covers in a tree over \<open>N\<close> segments; it holds at the root and is kept by every descent
  of \<open>update\<close> and \<open>query\<close>.
\<close>

definition wf_tree :: "SegmentTree \<Rightarrow> bool" where
  "wf_tree t \<longleftrightarrow> 0 \<le> seg_n t \<and> length (tree t) = nat (4 * seg_n t) \<and> length (lazy t) = nat (4 * seg_n t)"

definition node_ok :: "int \<Rightarrow> nat \<Rightarrow> int \<Rightarrow> int \<Rightarrow> bool" where
  "node_ok N node s e \<longleftrightarrow> int node < 4 * N \<and> (int node + 2) * (e - s - 1) \<le> 2 * (N - 1)"

subsection \<open>Effective values\<close>

text \<open>
  The effective value of a node is its stored value plus the lazy values still pending
  at its proper ancestors. The parent of node \<open>i > 0\<close> is \<open>(i - 1) div 2\<close>, so
  \<open>acc_lazy lz i\<close> sums \<open>lz\<close> along the path from the parent of \<open>i\<close> up to the root.
  \<open>in_subtree c i\<close> says that \<open>c\<close> is \<open>i\<close> or one of its ancestors.
\<close>

function acc_lazy :: "int list \<Rightarrow> nat \<Rightarrow> int" where
  "acc_lazy lz i = (if i = 0 then 0 else lz ! ((i - 1) div 2) + acc_lazy lz ((i - 1) div 2))"
  by pat_completeness auto
termination
  by (relation "measure (\<lambda>(lz, i). i)") auto

definition effective :: "SegmentTree \<Rightarrow> nat \<Rightarrow> int" where
  "effective t i = tree t ! i + acc_lazy (lazy t) i"

function in_subtree :: "nat \<Rightarrow> nat \<Rightarrow> bool" where
  "in_subtree c i = (if c = i then True else if i = 0 then False else in_subtree c ((i - 1) div 2))"
  by pat_completeness auto
termination
  by (relation "measure (\<lambda>(c, i). i)") auto

text \<open>
  \<open>leaf_idx node s e j\<close> is the position of the leaf of segment \<open>j\<close> below \<open>node\<close>, found
  by the descent that \<open>update\<close> and \<open>query\<close> perform (same midpoint, same children).
\<close>

function leaf_idx :: "nat \<Rightarrow> int \<Rightarrow> int \<Rightarrow> int \<Rightarrow> nat" where
  "leaf_idx node s e j =
     (if e - s \<le> 1 then node
      else if j < (s + e) div 2 then leaf_idx (2 * node + 1) s ((s + e) div 2) j
      else leaf_idx (2 * node + 2) ((s + e) div 2) e j)"
  by pat_completeness auto
termination
  by (relation "measure (\<lambda>(node, s, e, j). nat (e - s))") auto

text \<open>
  The source computes effective values itself, in \<open>collectNodes\<close> of
  \<open>getTreeVisualization\<close>: \<open>effectiveVal = this.tree[node] + accLazy\<close>, and the children
  are visited with \<open>accLazy + this.lazy[node]\<close>. \<open>leafEffective\<close> is that traversal
  followed to the leaf of segment \<open>j\<close>, and \<open>leaf_value t j\<close> is the value it displays
  for that segment.
\<close>

function leafEffective :: "SegmentTree \<Rightarrow> nat \<Rightarrow> int \<Rightarrow> int \<Rightarrow> int \<Rightarrow> int \<Rightarrow> int" where
  "leafEffective t node s e accLazy j =
     (if e - s \<le> 1 then tree t ! node + accLazy
      else if j < (s + e) div 2
        then leafEffective t (2 * node + 1) s ((s + e) div 2) (accLazy + lazy t ! node) j
        else leafEffective t (2 * node + 2) ((s + e) div 2) e (accLazy + lazy t ! node) j)"
  by pat_completeness auto
termination
  by (relation "measure (\<lambda>(t, node, s, e, accLazy, j). nat (e - s))") auto

definition leaf_value :: "SegmentTree \<Rightarrow> int \<Rightarrow> int" where
  "leaf_value t j = leafEffective t 0 0 (seg_n t) 0 j"

subsection \<open>Ledger states\<close>

text \<open>
  \<open>wf_ledger\<close> is what the constructor of the ledger establishes and every operation
  keeps. \<open>valid_request\<close> is the negation of the two guards at the head of \<open>book\<close> and
  \<open>cancel\<close>. \<open>exact_match\<close> is the predicate \<open>cancel\<close> hands to \<open>find\<close>.
  \<open>active_count bs j\<close> counts the active records of \<open>bs\<close> whose range contains segment
  \<open>j\<close>. \<open>reachable\<close> holds of the states the constructor and the operations produce.
  \<open>records_ok\<close> says that every record carries a seat and a range that pass the two
  guards; \<open>book\<close> stores no other record.
\<close>

definition wf_ledger :: "SeatBookingSystem \<Rightarrow> bool" where
  "wf_ledger S \<longleftrightarrow>
     numSegments S = numStations S - 1 \<and> length (seats S) = nat (numSeats S) \<and>
     (\<forall>t \<in> set (seats S). wf_tree t \<and> seg_n t = numSegments S) \<and>
     wf_tree (globalTree S) \<and> seg_n (globalTree S) = numSegments S"

definition valid_request :: "SeatBookingSystem \<Rightarrow> int \<Rightarrow> int \<Rightarrow> int \<Rightarrow> bool" where
  "valid_request S seatId l r \<longleftrightarrow>
     0 \<le> seatId \<and> seatId < numSeats S \<and> 0 \<le> l \<and> l < r \<and> r \<le> numStations S"

definition exact_match :: "int \<Rightarrow> int \<Rightarrow> int \<Rightarrow> Booking \<Rightarrow> bool" where
  "exact_match seatId l r b \<longleftrightarrow> b_seatId b = seatId \<and> b_from b = l \<and> b_to b = r \<and> b_active b"

definition active_count :: "Booking list \<Rightarrow> int \<Rightarrow> int" where
  "active_count bs j = int (length (filter (\<lambda>b. b_active b \<and> b_from b \<le> j \<and> j < b_to b) bs))"

definition records_ok :: "SeatBookingSystem \<Rightarrow> bool" where
  "records_ok S \<longleftrightarrow> (\<forall>b \<in> set (bookings S). valid_request S (b_seatId b) (b_from b) (b_to b))"

inductive reachable :: "SeatBookingSystem \<Rightarrow> bool" where
  r_new: "SeatBookingSystem_new nSeats nStations = Some S \<Longrightarrow> reachable S"
| r_book: "reachable S \<Longrightarrow> book S seatId l r = Some (res, S') \<Longrightarrow> reachable S'"
| r_cancel: "reachable S \<Longrightarrow> cancel S seatId l r = Some (res, S') \<Longrightarrow> reachable S'"
| r_queryAvailable: "reachable S \<Longrightarrow> queryAvailable S l r = Some (qres, S') \<Longrightarrow> reachable S'"
| r_isAvailable: "reachable S \<Longrightarrow> isAvailable S seatId l r = Some (b, S') \<Longrightarrow> reachable S'"
| r_getSeatStatus: "reachable S \<Longrightarrow> getSeatStatus S seatId = Some (st, S') \<Longrightarrow> reachable S'"

subsection \<open>Example ledgers\<close>

text \<open>
  Concrete states of a ledger with one seat: \<open>example_fresh\<close> is
  \<open>new SeatBookingSystem(1, 5)\<close>; \<open>example_booked\<close> follows \<open>book(0, 0, 2)\<close>;
  \<open>example_probed\<close> follows the rejected \<open>book(0, 1, 3)\<close> after that.
  \<open>example_whole\<close> is \<open>new SeatBookingSystem(1, 6)\<close> after \<open>book(0, 0, 5)\<close>.
\<close>

definition example_fresh :: SeatBookingSystem where
  "example_fresh =
     \<lparr>numSeats = 1, numStations = 5, numSegments = 4,
      seats = [\<lparr>seg_n = 4, tree = [0, 0, 0, 0, 0, 0, 0, 0, 0, 0, 0, 0, 0, 0, 0, 0],
                 lazy = [0, 0, 0, 0, 0, 0, 0, 0, 0, 0, 0, 0, 0, 0, 0, 0]\<rparr>],
      globalTree = \<lparr>seg_n = 4, tree = [0, 0, 0, 0, 0, 0, 0, 0, 0, 0, 0, 0, 0, 0, 0, 0],
                     lazy = [0, 0, 0, 0, 0, 0, 0, 0, 0, 0, 0, 0, 0, 0, 0, 0]\<rparr>,
      bookings = [], operationCount = 0\<rparr>"

definition example_booked :: SeatBookingSystem where
  "example_booked =
     \<lparr>numSeats = 1, numStations = 5, numSegments = 4,
      seats = [\<lparr>seg_n = 4, tree = [2, 1, 0, 0, 0, 0, 0, 0, 0, 0, 0, 0, 0, 0, 0, 0],
                 lazy = [0, 1, 0, 0, 0, 0, 0, 0, 0, 0, 0, 0, 0, 0, 0, 0]\<rparr>],
      globalTree = \<lparr>seg_n = 4, tree = [2, 1, 0, 0, 0, 0, 0, 0, 0, 0, 0, 0, 0, 0, 0, 0],
                     lazy = [0, 1, 0, 0, 0, 0, 0, 0, 0, 0, 0, 0, 0, 0, 0, 0]\<rparr>,
      bookings = [\<lparr>b_id = 1, b_seatId = 0, b_from = 0, b_to = 2, b_active = True\<rparr>],
      operationCount = 1\<rparr>"

definition example_probed :: SeatBookingSystem where
  "example_probed =
     \<lparr>numSeats = 1, numStations = 5, numSegments = 4,
      seats = [\<lparr>seg_n = 4, tree = [2, 1, 0, 1, 1, 0, 0, 0, 0, 0, 0, 0, 0, 0, 0, 0],
                 lazy = [0, 0, 0, 1, 1, 0, 0, 0, 0, 0, 0, 0, 0, 0, 0, 0]\<rparr>],
      globalTree = \<lparr>seg_n = 4, tree = [2, 1, 0, 0, 0, 0, 0, 0, 0, 0, 0, 0, 0, 0, 0, 0],
                     lazy = [0, 1, 0, 0, 0, 0, 0, 0, 0, 0, 0, 0, 0, 0, 0, 0]\<rparr>,
      bookings = [\<lparr>b_id = 1, b_seatId = 0, b_from = 0, b_to = 2, b_active = True\<rparr>],
      operationCount = 2\<rparr>"

definition example_whole :: SeatBookingSystem where
  "example_whole =
     \<lparr>numSeats = 1, numStations = 6, numSegments = 5,
      seats = [\<lparr>seg_n = 5, tree = [1, 0, 0, 0, 0, 0, 0, 0, 0, 0, 0, 0, 0, 0, 0, 0, 0, 0, 0, 0],
                 lazy = [1, 0, 0, 0, 0, 0, 0, 0, 0, 0, 0, 0, 0, 0, 0, 0, 0, 0, 0, 0]\<rparr>],
      globalTree = \<lparr>seg_n = 5, tree = [1, 0, 0, 0, 0, 0, 0, 0, 0, 0, 0, 0, 0, 0, 0, 0, 0, 0, 0, 0],
                     lazy = [1, 0, 0, 0, 0, 0, 0, 0, 0, 0, 0, 0, 0, 0, 0, 0, 0, 0, 0, 0]\<rparr>,
      bookings = [\<lparr>b_id = 1, b_seatId = 0, b_from = 0, b_to = 5, b_active = True\<rparr>],
      operationCount = 1\<rparr>"


subsection \<open>Example trees\<close>

text \<open>
  \<open>example_tree\<close> is \<open>new SegmentTree(4)\<close> after \<open>update(0, 4, 1)\<close>: the root holds a
  pending lazy value that the next descent pushes to its children.
  \<open>example_tree_queried\<close> is what \<open>query(1, 2)\<close> leaves of it, and
  \<open>example_tree_updated\<close> what \<open>update(1, 3, 1)\<close> leaves of it. \<open>empty_tree\<close> is
  \<open>new SegmentTree(0)\<close>.
\<close>

definition example_tree :: SegmentTree where
  "example_tree =
     \<lparr>seg_n = 4, tree = [1, 0, 0, 0, 0, 0, 0, 0, 0, 0, 0, 0, 0, 0, 0, 0],
      lazy = [1, 0, 0, 0, 0, 0, 0, 0, 0, 0, 0, 0, 0, 0, 0, 0]\<rparr>"

definition example_tree_queried :: SegmentTree where
  "example_tree_queried =
     \<lparr>seg_n = 4, tree = [1, 1, 1, 1, 1, 0, 0, 0, 0, 0, 0, 0, 0, 0, 0, 0],
      lazy = [0, 0, 1, 1, 1, 0, 0, 0, 0, 0, 0, 0, 0, 0, 0, 0]\<rparr>"

definition example_tree_updated :: SegmentTree where
  "example_tree_updated =
     \<lparr>seg_n = 4, tree = [4, 4, 4, 1, 2, 2, 1, 0, 0, 0, 0, 0, 0, 0, 0, 0],
      lazy = [0, 0, 0, 1, 2, 2, 1, 0, 0, 0, 0, 0, 0, 0, 0, 0]\<rparr>"

definition empty_tree :: SegmentTree where
  "empty_tree = \<lparr>seg_n = 0, tree = [], lazy = []\<rparr>"

section \<open>Properties of the segment tree\<close>

declare update.simps [simp del] query.simps [simp del]

lemma rd_Some: "i < length a \<Longrightarrow> rd a i = Some (a ! i)"
  by (simp add: rd_def)

lemma wr_Some: "i < length a \<Longrightarrow> wr a i v = Some (a[i := v])"
  by (simp add: wr_def)

lemma rd_SomeD: "rd a i = Some x \<Longrightarrow> i < length a \<and> x = a ! i"
  by (simp add: rd_def split: if_splits)

lemma wr_SomeD: "wr a i v = Some b \<Longrightarrow> i < length a \<and> b = a[i := v]"
  by (simp add: wr_def split: if_splits)

lemma update_outside: "r \<le> s \<or> e \<le> l \<Longrightarrow> update t l r d node s e = Some t"
  by (subst update.simps) simp

lemma update_cover:
  "\<not> (r \<le> s \<or> e \<le> l) \<Longrightarrow> l \<le> s \<and> e \<le> r \<Longrightarrow>
   update t l r d node s e = do {
        tv \<leftarrow> rd (tree t) node;
        tree1 \<leftarrow> wr (tree t) node (tv + d);
        lv \<leftarrow> rd (lazy t) node;
        lazy1 \<leftarrow> wr (lazy t) node (lv + d);
        Some (t\<lparr>tree := tree1, lazy := lazy1\<rparr>) }"
  by (subst update.simps) simp

lemma update_split:
  "\<not> (r \<le> s \<or> e \<le> l) \<Longrightarrow> \<not> (l \<le> s \<and> e \<le> r) \<Longrightarrow>
   update t l r d node s e = do {
        t1 \<leftarrow> pushDown t node;
        t2 \<leftarrow> update t1 l r d (2 * node + 1) s ((s + e) div 2);
        t3 \<leftarrow> update t2 l r d (2 * node + 2) ((s + e) div 2) e;
        tl \<leftarrow> rd (tree t3) (2 * node + 1);
        ll \<leftarrow> rd (lazy t3) (2 * node + 1);
        tr \<leftarrow> rd (tree t3) (2 * node + 2);
        lr \<leftarrow> rd (lazy t3) (2 * node + 2);
        tree4 \<leftarrow> wr (tree t3) node (max (tl + ll) (tr + lr));
        Some (t3\<lparr>tree := tree4\<rparr>) }"
  by (subst update.simps) (auto simp: Let_def)

lemma query_outside: "r \<le> s \<or> e \<le> l \<Longrightarrow> query t l r node s e = Some (0, t)"
  by (subst query.simps) simp

lemma query_cover:
  "\<not> (r \<le> s \<or> e \<le> l) \<Longrightarrow> l \<le> s \<and> e \<le> r \<Longrightarrow>
   query t l r node s e = do { v \<leftarrow> rd (tree t) node; Some (v, t) }"
  by (subst query.simps) simp

lemma query_split:
  "\<not> (r \<le> s \<or> e \<le> l) \<Longrightarrow> \<not> (l \<le> s \<and> e \<le> r) \<Longrightarrow>
   query t l r node s e = do {
        t1 \<leftarrow> pushDown t node;
        (leftMax, t2) \<leftarrow> query t1 l r (2 * node + 1) s ((s + e) div 2);
        (rightMax, t3) \<leftarrow> query t2 l r (2 * node + 2) ((s + e) div 2) e;
        Some (max leftMax rightMax, t3) }"
  by (subst query.simps) (auto simp: Let_def)

lemma pushDown_cases:
  assumes "pushDown t k = Some t'"
  shows "k < length (lazy t) \<and>
     (lazy t ! k = 0 \<and> t' = t \<or>
      lazy t ! k \<noteq> 0 \<and> 2 * k + 2 < length (tree t) \<and> 2 * k + 2 < length (lazy t) \<and>
      t' = t\<lparr>tree := (tree t)[2 * k + 1 := tree t ! (2 * k + 1) + lazy t ! k,
                              2 * k + 2 := tree t ! (2 * k + 2) + lazy t ! k],
             lazy := (lazy t)[2 * k + 1 := lazy t ! (2 * k + 1) + lazy t ! k,
                              2 * k + 2 := lazy t ! (2 * k + 2) + lazy t ! k,
                              k := 0]\<rparr>)"
  using assms
  by (auto simp: pushDown_def rd_def wr_def Let_def split: if_splits bind_splits)

lemma pushDown_total:
  assumes "2 * k + 2 < length (tree t)" "2 * k + 2 < length (lazy t)"
  shows "\<exists>t'. pushDown t k = Some t'"
  using assms by (simp add: pushDown_def rd_def wr_def Let_def)

lemma pushDown_shape:
  "pushDown t k = Some t' \<Longrightarrow>
   seg_n t' = seg_n t \<and> length (tree t') = length (tree t) \<and> length (lazy t') = length (lazy t)"
  by (drule pushDown_cases) auto

lemma partial_len: "\<not> (r \<le> s \<or> e \<le> l) \<Longrightarrow> \<not> (l \<le> s \<and> e \<le> r) \<Longrightarrow> 2 \<le> e - (s::int)"
  by linarith

lemma node_ok_children:
  assumes ok: "node_ok N node s e" and len: "2 \<le> e - s"
  shows "int (2 * node + 2) < 4 * N"
    and "node_ok N (2 * node + 1) s ((s + e) div 2)"
    and "node_ok N (2 * node + 2) ((s + e) div 2) e"
proof -
  define m where "m = (s + e) div 2"
  have m: "2 * m \<le> s + e" "s + e - 1 \<le> 2 * m" unfolding m_def by linarith+
  have prod: "(int node + 2) * (e - s - 1) \<le> 2 * (N - 1)"
    using ok by (simp add: node_ok_def)
  have "int node + 2 \<le> (int node + 2) * (e - s - 1)"
    using mult_left_mono [of 1 "e - s - 1" "int node + 2"] len by simp
  with prod have small: "int node + 2 \<le> 2 * (N - 1)" by linarith
  then show c: "int (2 * node + 2) < 4 * N" by simp
  have a0: "0 \<le> m - s - 1" using len m by linarith
  have "(int (2 * node + 1) + 2) * (m - s - 1) \<le> (int (2 * node + 2) + 2) * (m - s - 1)"
    by (rule mult_right_mono) (use a0 in auto)
  also have "\<dots> = (int node + 2) * (2 * (m - s - 1))"
    by (simp add: algebra_simps)
  also have "\<dots> \<le> (int node + 2) * (e - s - 1)"
    by (rule mult_left_mono) (use m in auto)
  finally have "(int (2 * node + 1) + 2) * (m - s - 1) \<le> 2 * (N - 1)"
    using prod by linarith
  then show "node_ok N (2 * node + 1) s ((s + e) div 2)"
    using c by (simp add: node_ok_def m_def)
  have "(int (2 * node + 2) + 2) * (e - m - 1) = (int node + 2) * (2 * (e - m - 1))"
    by (simp add: algebra_simps)
  also have "\<dots> \<le> (int node + 2) * (e - s - 1)"
    by (rule mult_left_mono) (use m in auto)
  finally have "(int (2 * node + 2) + 2) * (e - m - 1) \<le> 2 * (N - 1)"
    using prod by linarith
  then show "node_ok N (2 * node + 2) ((s + e) div 2) e"
    using c by (simp add: node_ok_def m_def)
qed

lemma update_shape:
  "update t l r d node s e = Some t' \<Longrightarrow>
   seg_n t' = seg_n t \<and> length (tree t') = length (tree t) \<and> length (lazy t') = length (lazy t)"
proof (induction t l r d node s e arbitrary: t' rule: update.induct)
  case (1 t l r d node s e)
  show ?case
  proof (cases "r \<le> s \<or> e \<le> l")
    case True
    with "1.prems" show ?thesis by (simp add: update_outside)
  next
    case out: False
    show ?thesis
    proof (cases "l \<le> s \<and> e \<le> r")
      case True
      with out "1.prems" show ?thesis
        by (auto simp: update_cover rd_def wr_def split: bind_splits if_splits)
    next
      case False
      from "1.prems" out False obtain t1 t2 t3 where
        p: "pushDown t node = Some t1" and
        u1: "update t1 l r d (2 * node + 1) s ((s + e) div 2) = Some t2" and
        u2: "update t2 l r d (2 * node + 2) ((s + e) div 2) e = Some t3" and
        fin: "\<exists>x. t' = t3\<lparr>tree := (tree t3)[node := x]\<rparr>"
        by (auto simp: update_split rd_def wr_def split: bind_splits if_splits)
      from "1.IH"(1) [OF out False p refl u1] "1.IH"(2) [OF out False p refl u1 u2]
        pushDown_shape [OF p] fin
      show ?thesis by auto
    qed
  qed
qed

lemma update_total:
  "wf_tree t \<Longrightarrow> node_ok (seg_n t) node s e \<Longrightarrow> \<exists>t'. update t l r d node s e = Some t'"
proof (induction t l r d node s e rule: update.induct)
  case (1 t l r d node s e)
  show ?case
  proof (cases "r \<le> s \<or> e \<le> l")
    case True
    then show ?thesis by (simp add: update_outside)
  next
    case out: False
    have nd: "node < length (tree t)" "node < length (lazy t)"
      using "1.prems" by (auto simp: wf_tree_def node_ok_def)
    show ?thesis
    proof (cases "l \<le> s \<and> e \<le> r")
      case True
      with out nd show ?thesis
        by (simp add: update_cover rd_def wr_def)
    next
      case False
      have len: "2 \<le> e - s" using out False by linarith
      note ch = node_ok_children [OF "1.prems"(2) len]
      have b: "2 * node + 2 < length (tree t)" "2 * node + 2 < length (lazy t)"
        using ch(1) "1.prems"(1) by (auto simp: wf_tree_def)
      from pushDown_total [OF b] obtain t1 where p: "pushDown t node = Some t1" ..
      have wf1: "wf_tree t1" and n1: "seg_n t1 = seg_n t"
        using pushDown_shape [OF p] "1.prems"(1) by (auto simp: wf_tree_def)
      from "1.IH"(1) [OF out False p refl wf1] ch(2) n1
      obtain t2 where u1: "update t1 l r d (2 * node + 1) s ((s + e) div 2) = Some t2"
        by auto
      have wf2: "wf_tree t2" and n2: "seg_n t2 = seg_n t"
        using update_shape [OF u1] wf1 n1 by (auto simp: wf_tree_def)
      from "1.IH"(2) [OF out False p refl u1 wf2] ch(3) n2
      obtain t3 where u2: "update t2 l r d (2 * node + 2) ((s + e) div 2) e = Some t3"
        by auto
      have l3: "length (tree t3) = length (tree t)" "length (lazy t3) = length (lazy t)"
        using update_shape [OF u2] wf2 n2 "1.prems"(1) by (auto simp: wf_tree_def)
      show ?thesis
        using out False p u1 u2 b nd l3 by (simp add: update_split rd_def wr_def)
    qed
  qed
qed


lemma query_shape:
  "query t l r node s e = Some (v, t') \<Longrightarrow>
   seg_n t' = seg_n t \<and> length (tree t') = length (tree t) \<and> length (lazy t') = length (lazy t)"
proof (induction t l r node s e arbitrary: v t' rule: query.induct)
  case (1 t l r node s e)
  show ?case
  proof (cases "r \<le> s \<or> e \<le> l")
    case True
    with "1.prems" show ?thesis by (simp add: query_outside)
  next
    case out: False
    show ?thesis
    proof (cases "l \<le> s \<and> e \<le> r")
      case True
      with out "1.prems" show ?thesis
        by (auto simp: query_cover split: bind_splits)
    next
      case False
      from "1.prems" out False obtain t1 v1 t2 v2 where
        p: "pushDown t node = Some t1" and
        q1: "query t1 l r (2 * node + 1) s ((s + e) div 2) = Some (v1, t2)" and
        q2: "query t2 l r (2 * node + 2) ((s + e) div 2) e = Some (v2, t')"
        by (auto simp: query_split split: bind_splits)
      from "1.IH"(1) [OF out False p refl q1] "1.IH"(2) [OF out False p refl q1 refl q2]
        pushDown_shape [OF p]
      show ?thesis by auto
    qed
  qed
qed

lemma query_total:
  "wf_tree t \<Longrightarrow> node_ok (seg_n t) node s e \<Longrightarrow> \<exists>v t'. query t l r node s e = Some (v, t')"
proof (induction t l r node s e rule: query.induct)
  case (1 t l r node s e)
  show ?case
  proof (cases "r \<le> s \<or> e \<le> l")
    case True
    then show ?thesis by (simp add: query_outside)
  next
    case out: False
    have nd: "node < length (tree t)"
      using "1.prems" by (auto simp: wf_tree_def node_ok_def)
    show ?thesis
    proof (cases "l \<le> s \<and> e \<le> r")
      case True
      with out nd show ?thesis
        by (simp add: query_cover rd_def)
    next
      case False
      have len: "2 \<le> e - s" using out False by linarith
      note ch = node_ok_children [OF "1.prems"(2) len]
      have b: "2 * node + 2 < length (tree t)" "2 * node + 2 < length (lazy t)"
        using ch(1) "1.prems"(1) by (auto simp: wf_tree_def)
      from pushDown_total [OF b] obtain t1 where p: "pushDown t node = Some t1" ..
      have wf1: "wf_tree t1" and n1: "seg_n t1 = seg_n t"
        using pushDown_shape [OF p] "1.prems"(1) by (auto simp: wf_tree_def)
      from "1.IH"(1) [OF out False p refl wf1] ch(2) n1
      obtain v1 t2 where q1: "query t1 l r (2 * node + 1) s ((s + e) div 2) = Some (v1, t2)"
        by auto
      have wf2: "wf_tree t2" and n2: "seg_n t2 = seg_n t"
        using query_shape [OF q1] wf1 n1 by (auto simp: wf_tree_def)
      from "1.IH"(2) [OF out False p refl q1 refl wf2] ch(3) n2
      obtain v2 t3 where q2: "query t2 l r (2 * node + 2) ((s + e) div 2) e = Some (v2, t3)"
        by auto
      show ?thesis
        using out False p q1 q2 by (simp add: query_split)
    qed
  qed
qed

lemma root_ok: "1 \<le> N \<Longrightarrow> node_ok N 0 0 N"
  by (simp add: node_ok_def)

lemma applyRangeDelta_total:
  assumes "wf_tree t" "0 \<le> l"
  shows "\<exists>t'. applyRangeDelta t l r d = Some t'"
proof (cases "seg_n t = 0")
  case True
  with assms show ?thesis by (simp add: applyRangeDelta_def update_outside)
next
  case False
  with assms have "node_ok (seg_n t) 0 0 (seg_n t)" by (intro root_ok) (simp add: wf_tree_def)
  from update_total [OF assms(1) this] show ?thesis by (simp add: applyRangeDelta_def)
qed

lemma queryRangeMax_total:
  assumes "wf_tree t" "0 \<le> l"
  shows "\<exists>v t'. queryRangeMax t l r = Some (v, t')"
proof (cases "seg_n t = 0")
  case True
  with assms show ?thesis by (simp add: queryRangeMax_def query_outside)
next
  case False
  with assms have "node_ok (seg_n t) 0 0 (seg_n t)" by (intro root_ok) (simp add: wf_tree_def)
  from query_total [OF assms(1) this] show ?thesis by (simp add: queryRangeMax_def)
qed

lemma applyRangeDelta_wf:
  "applyRangeDelta t l r d = Some t' \<Longrightarrow> wf_tree t \<Longrightarrow> wf_tree t' \<and> seg_n t' = seg_n t"
  using update_shape [of t l r d 0 0 "seg_n t" t'] by (simp add: applyRangeDelta_def wf_tree_def)

lemma queryRangeMax_wf:
  "queryRangeMax t l r = Some (v, t') \<Longrightarrow> wf_tree t \<Longrightarrow> wf_tree t' \<and> seg_n t' = seg_n t"
  using query_shape [of t l r 0 0 "seg_n t" v t'] by (simp add: queryRangeMax_def wf_tree_def)

subsection \<open>Ancestors and accumulated lazy values\<close>

declare acc_lazy.simps [simp del] in_subtree.simps [simp del] leaf_idx.simps [simp del]

lemma acc_lazy_0 [simp]: "acc_lazy lz 0 = 0"
  by (subst acc_lazy.simps) simp

lemma acc_lazy_pos: "i \<noteq> 0 \<Longrightarrow> acc_lazy lz i = lz ! ((i - 1) div 2) + acc_lazy lz ((i - 1) div 2)"
  by (subst acc_lazy.simps) simp

lemma in_subtree_refl [simp]: "in_subtree i i"
  by (subst in_subtree.simps) simp

lemma in_subtree_0: "in_subtree c 0 \<longleftrightarrow> c = 0"
  by (subst in_subtree.simps) simp

lemma in_subtree_pos: "i \<noteq> 0 \<Longrightarrow> in_subtree c i \<longleftrightarrow> c = i \<or> in_subtree c ((i - 1) div 2)"
  by (subst in_subtree.simps) simp

lemma leaf_idx_leaf: "e - s \<le> 1 \<Longrightarrow> leaf_idx node s e j = node"
  by (subst leaf_idx.simps) simp

lemma leaf_idx_left:
  "\<not> e - s \<le> 1 \<Longrightarrow> j < (s + e) div 2 \<Longrightarrow> leaf_idx node s e j = leaf_idx (2 * node + 1) s ((s + e) div 2) j"
  by (subst leaf_idx.simps) simp

lemma leaf_idx_right:
  "\<not> e - s \<le> 1 \<Longrightarrow> \<not> j < (s + e) div 2 \<Longrightarrow> leaf_idx node s e j = leaf_idx (2 * node + 2) ((s + e) div 2) e j"
  by (subst leaf_idx.simps) simp

lemma in_subtree_ge: "in_subtree c i \<Longrightarrow> c \<le> i"
proof (induction i rule: less_induct)
  case (less i)
  show ?case
  proof (cases "i = 0")
    case True
    with less.prems show ?thesis by (simp add: in_subtree_0)
  next
    case False
    with less.prems have "c = i \<or> in_subtree c ((i - 1) div 2)" by (simp add: in_subtree_pos)
    then show ?thesis
    proof
      assume "c = i" then show ?thesis by simp
    next
      assume up: "in_subtree c ((i - 1) div 2)"
      have "(i - 1) div 2 < i" using False by linarith
      from less.IH [OF this up] show ?thesis by linarith
    qed
  qed
qed

lemma in_subtree_step: "i \<noteq> 0 \<Longrightarrow> in_subtree c ((i - 1) div 2) \<Longrightarrow> in_subtree c i"
  by (simp add: in_subtree_pos)

lemma in_subtree_trans: "in_subtree b i \<Longrightarrow> in_subtree a b \<Longrightarrow> in_subtree a i"
proof (induction i rule: less_induct)
  case (less i)
  show ?case
  proof (cases "b = i")
    case True
    with less.prems show ?thesis by simp
  next
    case False
    with less.prems(1) have i0: "i \<noteq> 0" by (cases "i = 0") (auto simp: in_subtree_0)
    with less.prems(1) False have up: "in_subtree b ((i - 1) div 2)" by (simp add: in_subtree_pos)
    have "(i - 1) div 2 < i" using i0 by linarith
    from less.IH [OF this up less.prems(2)] i0 show ?thesis by (simp add: in_subtree_pos)
  qed
qed

lemma in_subtree_left: "in_subtree (2 * k + 1) i \<Longrightarrow> in_subtree k i"
  by (erule in_subtree_trans) (simp add: in_subtree_pos)

lemma in_subtree_right: "in_subtree (2 * k + 2) i \<Longrightarrow> in_subtree k i"
  by (erule in_subtree_trans) (simp add: in_subtree_pos)

lemma in_subtree_chain: "in_subtree a i \<Longrightarrow> in_subtree b i \<Longrightarrow> in_subtree a b \<or> in_subtree b a"
proof (induction i rule: less_induct)
  case (less i)
  show ?case
  proof (cases "a = i \<or> b = i")
    case True
    with less.prems show ?thesis by auto
  next
    case False
    with less.prems have i0: "i \<noteq> 0" by (cases "i = 0") (auto simp: in_subtree_0)
    with less.prems False have ua: "in_subtree a ((i - 1) div 2)" and ub: "in_subtree b ((i - 1) div 2)"
      by (simp_all add: in_subtree_pos)
    have "(i - 1) div 2 < i" using i0 by linarith
    from less.IH [OF this ua ub] show ?thesis .
  qed
qed

lemma siblings_disjoint: "in_subtree (2 * k + 1) i \<Longrightarrow> in_subtree (2 * k + 2) i \<Longrightarrow> False"
proof -
  assume a: "in_subtree (2 * k + 1) i" and b: "in_subtree (2 * k + 2) i"
  from in_subtree_chain [OF a b] show False
  proof
    assume "in_subtree (2 * k + 1) (2 * k + 2)"
    then have "in_subtree (2 * k + 1) k" by (simp add: in_subtree_pos)
    from in_subtree_ge [OF this] show False by simp
  next
    assume "in_subtree (2 * k + 2) (2 * k + 1)"
    from in_subtree_ge [OF this] show False by simp
  qed
qed

lemma leaf_in_subtree: "in_subtree node (leaf_idx node s e j)"
proof (induction node s e j rule: leaf_idx.induct)
  case (1 node s e j)
  show ?case
  proof (cases "e - s \<le> 1")
    case True
    then show ?thesis by (simp add: leaf_idx_leaf)
  next
    case False
    show ?thesis
    proof (cases "j < (s + e) div 2")
      case True
      from in_subtree_left [OF "1.IH"(1) [OF False True]] False True show ?thesis
        by (simp add: leaf_idx_left)
    next
      case f: False
      from in_subtree_right [OF "1.IH"(2) [OF False f]] False f show ?thesis
        by (simp add: leaf_idx_right)
    qed
  qed
qed

lemma acc_lazy_cong:
  "(\<And>a. in_subtree a i \<Longrightarrow> a \<noteq> i \<Longrightarrow> lz' ! a = lz ! a) \<Longrightarrow> acc_lazy lz' i = acc_lazy lz i"
proof (induction i rule: less_induct)
  case (less i)
  show ?case
  proof (cases "i = 0")
    case True
    then show ?thesis by simp
  next
    case False
    let ?p = "(i - 1) div 2"
    have pi: "?p < i" using False by linarith
    have up: "in_subtree ?p i" using False by (simp add: in_subtree_pos)
    have 1: "lz' ! ?p = lz ! ?p" using less.prems [OF up] pi by simp
    have 2: "acc_lazy lz' ?p = acc_lazy lz ?p"
    proof (rule less.IH [OF pi])
      fix a assume a: "in_subtree a ?p" "a \<noteq> ?p"
      have "in_subtree a i" using False a(1) by (simp add: in_subtree_pos)
      moreover have "a \<noteq> i" using in_subtree_ge [OF a(1)] pi by linarith
      ultimately show "lz' ! a = lz ! a" by (rule less.prems)
    qed
    show ?thesis using False 1 2 by (simp add: acc_lazy_pos)
  qed
qed

lemma acc_lazy_add:
  "k < length lz \<Longrightarrow>
   acc_lazy (lz[k := lz ! k + d]) i = acc_lazy lz i + (if in_subtree k i \<and> k \<noteq> i then d else 0)"
proof (induction i rule: less_induct)
  case (less i)
  show ?case
  proof (cases "i = 0")
    case True
    then show ?thesis by (auto simp: in_subtree_0)
  next
    case False
    let ?p = "(i - 1) div 2"
    have pi: "?p < i" using False by linarith
    have ih: "acc_lazy (lz[k := lz ! k + d]) ?p = acc_lazy lz ?p + (if in_subtree k ?p \<and> k \<noteq> ?p then d else 0)"
      using less.IH [OF pi less.prems] .
    have u: "in_subtree k i \<and> k \<noteq> i \<longleftrightarrow> in_subtree k ?p"
      using False in_subtree_ge [of k ?p] pi by (auto simp: in_subtree_pos)
    show ?thesis
      using False ih u less.prems by (auto simp: acc_lazy_pos nth_list_update)
  qed
qed

subsection \<open>What the operations do to effective values\<close>

lemma in_subtree_children [simp]: "in_subtree k (2 * k + 1)" "in_subtree k (2 * k + 2)"
  by (simp_all add: in_subtree_pos)

lemma push_acc:
  assumes len: "2 * k + 2 < length lz"
  shows "acc_lazy (lz[2 * k + 1 := lz ! (2 * k + 1) + lz ! k, 2 * k + 2 := lz ! (2 * k + 2) + lz ! k, k := 0]) i
         = acc_lazy lz i - (if i = 2 * k + 1 \<or> i = 2 * k + 2 then lz ! k else 0)"
    (is "acc_lazy ?lz' i = _")
proof (induction i rule: less_induct)
  case (less i)
  show ?case
  proof (cases "i = 0")
    case True
    then show ?thesis by simp
  next
    case False
    let ?p = "(i - 1) div 2"
    have pi: "?p < i" using False by linarith
    have pk: "?p = k \<longleftrightarrow> i = 2 * k + 1 \<or> i = 2 * k + 2" using False by linarith
    have ih: "acc_lazy ?lz' ?p = acc_lazy lz ?p - (if ?p = 2 * k + 1 \<or> ?p = 2 * k + 2 then lz ! k else 0)"
      by (rule less.IH [OF pi])
    have nth: "?lz' ! ?p = (if ?p = k then 0 else if ?p = 2 * k + 1 \<or> ?p = 2 * k + 2 then lz ! ?p + lz ! k else lz ! ?p)"
      using len by (auto simp: nth_list_update)
    have "acc_lazy ?lz' i = ?lz' ! ?p + acc_lazy ?lz' ?p" using False by (rule acc_lazy_pos)
    also have "\<dots> = lz ! ?p + acc_lazy lz ?p - (if i = 2 * k + 1 \<or> i = 2 * k + 2 then lz ! k else 0)"
      unfolding ih nth using pk by auto
    also have "lz ! ?p + acc_lazy lz ?p = acc_lazy lz i" using False by (simp add: acc_lazy_pos)
    finally show ?thesis .
  qed
qed

lemma pushDown_effective:
  assumes "pushDown t k = Some t'"
  shows "effective t' i = effective t i"
proof -
  from pushDown_cases [OF assms] have
    "t' = t \<or> (2 * k + 2 < length (tree t) \<and> 2 * k + 2 < length (lazy t) \<and>
      t' = t\<lparr>tree := (tree t)[2 * k + 1 := tree t ! (2 * k + 1) + lazy t ! k,
                              2 * k + 2 := tree t ! (2 * k + 2) + lazy t ! k],
             lazy := (lazy t)[2 * k + 1 := lazy t ! (2 * k + 1) + lazy t ! k,
                              2 * k + 2 := lazy t ! (2 * k + 2) + lazy t ! k,
                              k := 0]\<rparr>)" by auto
  then show ?thesis
  proof
    assume "t' = t" then show ?thesis by simp
  next
    assume a: "2 * k + 2 < length (tree t) \<and> 2 * k + 2 < length (lazy t) \<and>
      t' = t\<lparr>tree := (tree t)[2 * k + 1 := tree t ! (2 * k + 1) + lazy t ! k,
                              2 * k + 2 := tree t ! (2 * k + 2) + lazy t ! k],
             lazy := (lazy t)[2 * k + 1 := lazy t ! (2 * k + 1) + lazy t ! k,
                              2 * k + 2 := lazy t ! (2 * k + 2) + lazy t ! k,
                              k := 0]\<rparr>"
    then have tr: "tree t' ! i = tree t ! i + (if i = 2 * k + 1 \<or> i = 2 * k + 2 then lazy t ! k else 0)"
      by (auto simp: nth_list_update)
    from a push_acc [of k "lazy t" i]
    have lz: "acc_lazy (lazy t') i = acc_lazy (lazy t) i - (if i = 2 * k + 1 \<or> i = 2 * k + 2 then lazy t ! k else 0)"
      by simp
    show ?thesis unfolding effective_def tr lz by simp
  qed
qed

lemma pushDown_frame:
  assumes "pushDown t k = Some t'" "\<not> in_subtree k i"
  shows "tree t' ! i = tree t ! i \<and> lazy t' ! i = lazy t ! i"
proof -
  have ne: "i \<noteq> k" "i \<noteq> 2 * k + 1" "i \<noteq> 2 * k + 2"
    using assms(2) in_subtree_children [of k] in_subtree_refl [of k] by metis+
  from pushDown_cases [OF assms(1)] ne show ?thesis by auto
qed

lemma update_frame:
  "update t l r d node s e = Some t' \<Longrightarrow> \<not> in_subtree node i \<Longrightarrow>
   tree t' ! i = tree t ! i \<and> lazy t' ! i = lazy t ! i"
proof (induction t l r d node s e arbitrary: t' rule: update.induct)
  case (1 t l r d node s e)
  have ne: "i \<noteq> node" using "1.prems"(2) by auto
  show ?case
  proof (cases "r \<le> s \<or> e \<le> l")
    case True
    with "1.prems" show ?thesis by (simp add: update_outside)
  next
    case out: False
    show ?thesis
    proof (cases "l \<le> s \<and> e \<le> r")
      case True
      with out "1.prems"(1) ne show ?thesis
        by (auto simp: update_cover rd_def wr_def split: bind_splits if_splits)
    next
      case False
      from "1.prems"(1) out False obtain t1 t2 t3 where
        p: "pushDown t node = Some t1" and
        u1: "update t1 l r d (2 * node + 1) s ((s + e) div 2) = Some t2" and
        u2: "update t2 l r d (2 * node + 2) ((s + e) div 2) e = Some t3" and
        fin: "\<exists>x. t' = t3\<lparr>tree := (tree t3)[node := x]\<rparr>"
        by (auto simp: update_split rd_def wr_def split: bind_splits if_splits)
      have nl: "\<not> in_subtree (2 * node + 1) i" and nr: "\<not> in_subtree (2 * node + 2) i"
        using "1.prems"(2) in_subtree_left in_subtree_right by blast+
      from pushDown_frame [OF p "1.prems"(2)]
        "1.IH"(1) [OF out False p refl u1 nl] "1.IH"(2) [OF out False p refl u1 u2 nr] fin ne
      show ?thesis by auto
    qed
  qed
qed

lemma query_frame:
  "query t l r node s e = Some (v, t') \<Longrightarrow> \<not> in_subtree node i \<Longrightarrow>
   tree t' ! i = tree t ! i \<and> lazy t' ! i = lazy t ! i"
proof (induction t l r node s e arbitrary: v t' rule: query.induct)
  case (1 t l r node s e)
  show ?case
  proof (cases "r \<le> s \<or> e \<le> l")
    case True
    with "1.prems" show ?thesis by (simp add: query_outside)
  next
    case out: False
    show ?thesis
    proof (cases "l \<le> s \<and> e \<le> r")
      case True
      with out "1.prems"(1) show ?thesis
        by (auto simp: query_cover split: bind_splits)
    next
      case False
      from "1.prems"(1) out False obtain t1 v1 t2 v2 where
        p: "pushDown t node = Some t1" and
        q1: "query t1 l r (2 * node + 1) s ((s + e) div 2) = Some (v1, t2)" and
        q2: "query t2 l r (2 * node + 2) ((s + e) div 2) e = Some (v2, t')"
        by (auto simp: query_split split: bind_splits)
      have nl: "\<not> in_subtree (2 * node + 1) i" and nr: "\<not> in_subtree (2 * node + 2) i"
        using "1.prems"(2) in_subtree_left in_subtree_right by blast+
      from pushDown_frame [OF p "1.prems"(2)]
        "1.IH"(1) [OF out False p refl q1 nl] "1.IH"(2) [OF out False p refl q1 refl q2 nr]
      show ?thesis by auto
    qed
  qed
qed

lemma query_effective:
  "query t l r node s e = Some (v, t') \<Longrightarrow> effective t' i = effective t i"
proof (induction t l r node s e arbitrary: v t' rule: query.induct)
  case (1 t l r node s e)
  show ?case
  proof (cases "r \<le> s \<or> e \<le> l")
    case True
    with "1.prems" show ?thesis by (simp add: query_outside)
  next
    case out: False
    show ?thesis
    proof (cases "l \<le> s \<and> e \<le> r")
      case True
      with out "1.prems"(1) show ?thesis
        by (auto simp: query_cover split: bind_splits)
    next
      case False
      from "1.prems"(1) out False obtain t1 v1 t2 v2 where
        p: "pushDown t node = Some t1" and
        q1: "query t1 l r (2 * node + 1) s ((s + e) div 2) = Some (v1, t2)" and
        q2: "query t2 l r (2 * node + 2) ((s + e) div 2) e = Some (v2, t')"
        by (auto simp: query_split split: bind_splits)
      from pushDown_effective [OF p, of i]
        "1.IH"(1) [OF out False p refl q1] "1.IH"(2) [OF out False p refl q1 refl q2]
      show ?thesis by simp
    qed
  qed
qed

lemma frame_effective:
  assumes fr: "\<And>a. \<not> in_subtree node a \<Longrightarrow> tree t' ! a = tree t ! a \<and> lazy t' ! a = lazy t ! a"
    and ni: "\<not> in_subtree node i"
  shows "effective t' i = effective t i"
proof -
  have "acc_lazy (lazy t') i = acc_lazy (lazy t) i"
  proof (rule acc_lazy_cong)
    fix a assume a: "in_subtree a i" "a \<noteq> i"
    have "\<not> in_subtree node a" using in_subtree_trans [OF a(1)] ni by blast
    with fr show "lazy t' ! a = lazy t ! a" by simp
  qed
  with fr [OF ni] show ?thesis by (simp add: effective_def)
qed

lemma update_leaf:
  "update t l r d node s e = Some t' \<Longrightarrow> s \<le> j \<Longrightarrow> j < e \<Longrightarrow>
   effective t' (leaf_idx node s e j) =
   effective t (leaf_idx node s e j) + (if l \<le> j \<and> j < r then d else 0)"
proof (induction t l r d node s e arbitrary: t' rule: update.induct)
  case (1 t l r d node s e)
  let ?i = "leaf_idx node s e j"
  have sub: "in_subtree node ?i" by (rule leaf_in_subtree)
  show ?case
  proof (cases "r \<le> s \<or> e \<le> l")
    case True
    with "1.prems" show ?thesis by (auto simp: update_outside)
  next
    case out: False
    show ?thesis
    proof (cases "l \<le> s \<and> e \<le> r")
      case True
      with out "1.prems"(1) have n: "node < length (tree t)" "node < length (lazy t)"
        and t': "t' = t\<lparr>tree := (tree t)[node := tree t ! node + d],
                        lazy := (lazy t)[node := lazy t ! node + d]\<rparr>"
        by (auto simp: update_cover rd_def wr_def split: bind_splits if_splits)
      have "effective t' ?i = effective t ?i + d"
        using sub n by (auto simp: t' effective_def acc_lazy_add nth_list_update)
      with True "1.prems" show ?thesis by auto
    next
      case False
      have len: "\<not> e - s \<le> 1" using out False by linarith
      let ?m = "(s + e) div 2"
      from "1.prems"(1) out False obtain t1 t2 t3 where
        p: "pushDown t node = Some t1" and
        u1: "update t1 l r d (2 * node + 1) s ?m = Some t2" and
        u2: "update t2 l r d (2 * node + 2) ?m e = Some t3" and
        fin: "\<exists>x. t' = t3\<lparr>tree := (tree t3)[node := x]\<rparr>"
        by (auto simp: update_split rd_def wr_def split: bind_splits if_splits)
      have e1: "effective t1 ?i = effective t ?i" by (rule pushDown_effective [OF p])
      show ?thesis
      proof (cases "j < ?m")
        case True
        have i: "?i = leaf_idx (2 * node + 1) s ?m j" using len True by (rule leaf_idx_left)
        have subl: "in_subtree (2 * node + 1) ?i" unfolding i by (rule leaf_in_subtree)
        have e2: "effective t2 ?i = effective t1 ?i + (if l \<le> j \<and> j < r then d else 0)"
          unfolding i using "1.IH"(1) [OF out False p refl u1 "1.prems"(2) True] .
        have nr: "\<not> in_subtree (2 * node + 2) ?i" using subl siblings_disjoint by blast
        have e3: "effective t3 ?i = effective t2 ?i"
          by (rule frame_effective [OF _ nr]) (rule update_frame [OF u2])
        have ne: "?i \<noteq> node" using in_subtree_ge [OF subl] by simp
        have e4: "effective t' ?i = effective t3 ?i"
          using fin ne by (auto simp: effective_def)
        show ?thesis using e1 e2 e3 e4 by simp
      next
        case f: False
        have i: "?i = leaf_idx (2 * node + 2) ?m e j" using len f by (rule leaf_idx_right)
        have subr: "in_subtree (2 * node + 2) ?i" unfolding i by (rule leaf_in_subtree)
        have nl: "\<not> in_subtree (2 * node + 1) ?i" using subr siblings_disjoint by blast
        have e2: "effective t2 ?i = effective t1 ?i"
          by (rule frame_effective [OF _ nl]) (rule update_frame [OF u1])
        have mj: "?m \<le> j" using f by simp
        have e3: "effective t3 ?i = effective t2 ?i + (if l \<le> j \<and> j < r then d else 0)"
          unfolding i using "1.IH"(2) [OF out False p refl u1 u2 mj "1.prems"(3)] .
        have ne: "?i \<noteq> node" using in_subtree_ge [OF subr] by simp
        have e4: "effective t' ?i = effective t3 ?i"
          using fin ne by (auto simp: effective_def)
        show ?thesis using e1 e2 e3 e4 by simp
      qed
    qed
  qed
qed

declare leafEffective.simps [simp del]

lemma leafEffective_effective:
  "leafEffective t node s e (acc_lazy (lazy t) node) j = effective t (leaf_idx node s e j)"
proof (induction node s e j rule: leaf_idx.induct)
  case (1 node s e j)
  show ?case
  proof (cases "e - s \<le> 1")
    case True
    then show ?thesis
      by (subst leafEffective.simps) (simp add: leaf_idx_leaf effective_def)
  next
    case False
    have l: "acc_lazy (lazy t) (2 * node + 1) = acc_lazy (lazy t) node + lazy t ! node"
      by (simp add: acc_lazy_pos)
    have r: "acc_lazy (lazy t) (2 * node + 2) = acc_lazy (lazy t) node + lazy t ! node"
      by (simp add: acc_lazy_pos)
    let ?A = "acc_lazy (lazy t) node"
    show ?thesis
    proof (cases "j < (s + e) div 2")
      case True
      have "leafEffective t node s e ?A j
            = leafEffective t (2 * node + 1) s ((s + e) div 2) (?A + lazy t ! node) j"
        using False True by (subst leafEffective.simps) simp
      also have "\<dots> = effective t (leaf_idx (2 * node + 1) s ((s + e) div 2) j)"
        using "1.IH"(1) [OF False True] unfolding l .
      also have "\<dots> = effective t (leaf_idx node s e j)"
        using leaf_idx_left [OF False True, of node] by simp
      finally show ?thesis .
    next
      case f: False
      have "leafEffective t node s e ?A j
            = leafEffective t (2 * node + 2) ((s + e) div 2) e (?A + lazy t ! node) j"
        using False f by (subst leafEffective.simps) simp
      also have "\<dots> = effective t (leaf_idx (2 * node + 2) ((s + e) div 2) e j)"
        using "1.IH"(2) [OF False f] unfolding r .
      also have "\<dots> = effective t (leaf_idx node s e j)"
        using leaf_idx_right [OF False f, of node] by simp
      finally show ?thesis .
    qed
  qed
qed

lemma leaf_value_effective: "leaf_value t j = effective t (leaf_idx 0 0 (seg_n t) j)"
  using leafEffective_effective [of t 0 0 "seg_n t" j] by (simp add: leaf_value_def)

lemma applyRangeDelta_leaf:
  assumes "applyRangeDelta t l r d = Some t'" "0 \<le> j" "j < seg_n t"
  shows "leaf_value t' j = leaf_value t j + (if l \<le> j \<and> j < r then d else 0)"
proof -
  have n: "seg_n t' = seg_n t"
    using update_shape [of t l r d 0 0 "seg_n t" t'] assms(1) by (simp add: applyRangeDelta_def)
  from update_leaf [of t l r d 0 0 "seg_n t" t' j] assms
  show ?thesis by (simp add: leaf_value_effective n applyRangeDelta_def)
qed

lemma queryRangeMax_effective:
  "queryRangeMax t l r = Some (v, t') \<Longrightarrow> effective t' i = effective t i"
  unfolding queryRangeMax_def by (rule query_effective)

lemma queryRangeMax_leaf:
  assumes "queryRangeMax t l r = Some (v, t')"
  shows "leaf_value t' j = leaf_value t j"
proof -
  have n: "seg_n t' = seg_n t"
    using query_shape [of t l r 0 0 "seg_n t" v t'] assms by (simp add: queryRangeMax_def)
  show ?thesis by (simp add: leaf_value_effective n queryRangeMax_effective [OF assms])
qed

lemma pushDown_lazy_node: "pushDown t k = Some t' \<Longrightarrow> lazy t' ! k = 0"
  by (drule pushDown_cases) auto

lemma acc_lazy_frame:
  assumes fr: "\<And>a. \<not> in_subtree node a \<Longrightarrow> lazy t' ! a = lazy t ! a"
  shows "acc_lazy (lazy t') node = acc_lazy (lazy t) node"
proof (rule acc_lazy_cong)
  fix a assume a: "in_subtree a node" "a \<noteq> node"
  have "\<not> in_subtree node a" using in_subtree_ge [OF a(1)] in_subtree_ge [of node a] a(2) by auto
  then show "lazy t' ! a = lazy t ! a" by (rule fr)
qed

lemma query_unit:
  "query t l r node s e = Some (v, t') \<Longrightarrow> l = j \<Longrightarrow> r = j + 1 \<Longrightarrow> s \<le> j \<Longrightarrow> j < e \<Longrightarrow>
   v = (if e - s \<le> 1 then effective t (leaf_idx node s e j) - acc_lazy (lazy t) node
        else max 0 (effective t (leaf_idx node s e j) - acc_lazy (lazy t) node))"
proof (induction t l r node s e arbitrary: v t' rule: query.induct)
  case (1 t l r node s e)
  let ?i = "leaf_idx node s e j"
  have out: "\<not> (r \<le> s \<or> e \<le> l)" using "1.prems" by simp
  show ?case
  proof (cases "l \<le> s \<and> e \<le> r")
    case True
    then have leaf: "e - s \<le> 1" using "1.prems" by simp
    from True out "1.prems"(1) have "v = tree t ! node"
      by (auto simp: query_cover rd_def split: bind_splits if_splits)
    with leaf show ?thesis by (simp add: leaf_idx_leaf effective_def)
  next
    case False
    have len: "\<not> e - s \<le> 1" using out False by linarith
    let ?m = "(s + e) div 2"
    from "1.prems"(1) out False obtain t1 v1 t2 v2 where
      p: "pushDown t node = Some t1" and
      q1: "query t1 l r (2 * node + 1) s ?m = Some (v1, t2)" and
      q2: "query t2 l r (2 * node + 2) ?m e = Some (v2, t')" and
      v: "v = max v1 v2"
      by (auto simp: query_split split: bind_splits)
    have e1: "effective t1 ?i = effective t ?i" by (rule pushDown_effective [OF p])
    have a1: "acc_lazy (lazy t1) node = acc_lazy (lazy t) node"
      by (rule acc_lazy_frame) (use pushDown_frame [OF p] in simp)
    have z1: "lazy t1 ! node = 0" by (rule pushDown_lazy_node [OF p])
    have al: "acc_lazy (lazy t1) (2 * node + 1) = acc_lazy (lazy t) node"
      using a1 z1 by (simp add: acc_lazy_pos)
    show ?thesis
    proof (cases "j < ?m")
      case True
      have i: "?i = leaf_idx (2 * node + 1) s ?m j" using len True by (rule leaf_idx_left)
      have "r \<le> ?m" using True "1.prems" by simp
      with q2 have v2: "v2 = 0" by (simp add: query_outside)
      from "1.IH"(1) [OF out False p refl q1 "1.prems"(2,3,4) True]
      have "v1 = (if ?m - s \<le> 1 then effective t ?i - acc_lazy (lazy t) node
                  else max 0 (effective t ?i - acc_lazy (lazy t) node))"
        unfolding i [symmetric] e1 al .
      with v v2 len show ?thesis by auto
    next
      case f: False
      have i: "?i = leaf_idx (2 * node + 2) ?m e j" using len f by (rule leaf_idx_right)
      have "?m \<le> l" using f "1.prems" by simp
      with q1 have v1: "v1 = 0" and t2: "t2 = t1" by (simp_all add: query_outside)
      have ar: "acc_lazy (lazy t1) (2 * node + 2) = acc_lazy (lazy t) node"
        using a1 z1 by (simp add: acc_lazy_pos)
      have mj: "?m \<le> j" using f by simp
      from "1.IH"(2) [OF out False p refl q1 refl q2 "1.prems"(2,3) mj "1.prems"(5)]
      have "v2 = (if e - ?m \<le> 1 then effective t ?i - acc_lazy (lazy t) node
                  else max 0 (effective t ?i - acc_lazy (lazy t) node))"
        unfolding t2 i [symmetric] e1 ar .
      with v v1 len show ?thesis by auto
    qed
  qed
qed

lemma queryRangeMax_unit:
  assumes "queryRangeMax t j (j + 1) = Some (v, t')" "0 \<le> j" "j < seg_n t"
  shows "v = (if seg_n t \<le> 1 then leaf_value t j else max 0 (leaf_value t j))"
  using query_unit [of t j "j + 1" 0 0 "seg_n t" v t' j] assms
  by (simp add: queryRangeMax_def leaf_value_effective)

lemma unit_query_eq:
  assumes "wf_tree t" "wf_tree t'" "seg_n t' = seg_n t" "leaf_value t' j = leaf_value t j"
    "0 \<le> j" "j < seg_n t"
  shows "map_option fst (queryRangeMax t' j (j + 1)) = map_option fst (queryRangeMax t j (j + 1))"
proof -
  from queryRangeMax_total [OF assms(1,5)] obtain v u where q: "queryRangeMax t j (j + 1) = Some (v, u)"
    by blast
  from queryRangeMax_total [OF assms(2,5)] obtain v' u' where q': "queryRangeMax t' j (j + 1) = Some (v', u')"
    by blast
  from queryRangeMax_unit [OF q assms(5,6)] queryRangeMax_unit [OF q' assms(5)] assms(3,4,6)
  have "v' = v" by simp
  with q q' show ?thesis by simp
qed


section \<open>Properties of the ledger\<close>

lemma book_Booked:
  assumes "book S s l r = Some (Booked k, S')"
  shows "valid_request S s l r \<and> nat s < length (seats S) \<and> k = int (length (bookings S)) + 1 \<and>
    (\<exists>m seat1 seat2 g.
      queryRangeMax (seats S ! nat s) l r = Some (m, seat1) \<and> m \<le> 0 \<and>
      applyRangeDelta seat1 l r 1 = Some seat2 \<and>
      applyRangeDelta (globalTree S) l r 1 = Some g \<and>
      S' = S\<lparr>seats := (seats S)[nat s := seat2], globalTree := g,
             bookings := bookings S @ [\<lparr>b_id = k, b_seatId = s, b_from = l, b_to = r, b_active = True\<rparr>],
             operationCount := js_increment (operationCount S)\<rparr>)"
  using assms
  by (auto simp: book_def Let_def rd_def wr_def valid_request_def split: if_splits bind_splits prod.splits)

lemma book_fail:
  assumes "book S s l r = Some (res, S')" "\<not> success res"
  shows "(\<not> valid_request S s l r \<and> S' = S\<lparr>operationCount := js_increment (operationCount S)\<rparr> \<and>
          (res = InvalidResourceId s \<or> res = InvalidRange l r)) \<or>
         (valid_request S s l r \<and> nat s < length (seats S) \<and>
          (\<exists>m seat1 cs. queryRangeMax (seats S ! nat s) l r = Some (m, seat1) \<and> 0 < m \<and>
             res = RangeConflict s cs \<and>
             S' = S\<lparr>seats := (seats S)[nat s := seat1], operationCount := js_increment (operationCount S)\<rparr>))"
  using assms
  by (auto simp: book_def Let_def rd_def wr_def valid_request_def split: if_splits bind_splits prod.splits)

lemma findIndex_None: "findIndex P xs = None \<longleftrightarrow> (\<forall>x \<in> set xs. \<not> P x)"
  by (induction xs) auto

lemma findIndex_Some:
  "findIndex P xs = Some k \<Longrightarrow> k < length xs \<and> P (xs ! k) \<and> (\<forall>i < k. \<not> P (xs ! i))"
proof (induction xs arbitrary: k)
  case Nil
  then show ?case by simp
next
  case (Cons x xs)
  show ?case
  proof (cases "P x")
    case True
    with Cons.prems show ?thesis by simp
  next
    case False
    with Cons.prems obtain k' where k: "k = Suc k'" and f: "findIndex P xs = Some k'" by auto
    from Cons.IH [OF f] False show ?thesis by (auto simp: k less_Suc_eq_0_disj)
  qed
qed

lemma cancel_fail:
  assumes "cancel S s l r = Some (res, S')" "\<not> success res"
  shows "S' = S\<lparr>operationCount := js_increment (operationCount S)\<rparr> \<and>
         (res = InvalidResourceId s \<or> res = InvalidRange l r \<or> res = BookingNotFound s l r)"
  using assms
  by (auto simp: cancel_def Let_def split: if_splits bind_splits option.splits)

lemma cancel_valid:
  assumes "valid_request S s l r"
  shows "cancel S s l r =
     (case findIndex (exact_match s l r) (bookings S) of
        None \<Rightarrow> Some (BookingNotFound s l r, S\<lparr>operationCount := js_increment (operationCount S)\<rparr>)
      | Some k \<Rightarrow> do {
          seat \<leftarrow> rd (seats S) (nat s);
          seat1 \<leftarrow> applyRangeDelta seat l r (- 1);
          seats1 \<leftarrow> wr (seats S) (nat s) seat1;
          g \<leftarrow> applyRangeDelta (globalTree S) l r (- 1);
          Some (Cancelled,
                S\<lparr>seats := seats1, globalTree := g,
                   bookings := (bookings S)[k := (bookings S ! k)\<lparr>b_active := False\<rparr>],
                   operationCount := js_increment (operationCount S)\<rparr>)
        })"
proof -
  have e: "(\<lambda>b. b_seatId b = s \<and> b_from b = l \<and> b_to b = r \<and> b_active b) = exact_match s l r"
    by (auto simp: exact_match_def fun_eq_iff)
  show ?thesis
    using assms by (auto simp: cancel_def Let_def valid_request_def e split: option.splits bind_splits)
qed

lemma wf_seat: "wf_ledger S \<Longrightarrow> k < length (seats S) \<Longrightarrow> wf_tree (seats S ! k) \<and> seg_n (seats S ! k) = numSegments S"
  by (simp add: wf_ledger_def)

lemma wf_ledger_update:
  assumes "wf_ledger S" "wf_tree t" "seg_n t = numSegments S" "wf_tree g" "seg_n g = numSegments S"
  shows "wf_ledger (S\<lparr>seats := (seats S)[k := t], globalTree := g, bookings := bs, operationCount := c\<rparr>)"
  using assms by (auto simp: wf_ledger_def dest!: subsetD [OF set_update_subset_insert])

lemma wf_ledger_update_seat:
  assumes "wf_ledger S" "wf_tree t" "seg_n t = numSegments S"
  shows "wf_ledger (S\<lparr>seats := (seats S)[k := t], operationCount := c\<rparr>)"
  using assms by (auto simp: wf_ledger_def dest!: subsetD [OF set_update_subset_insert])

lemma wf_ledger_count: "wf_ledger S \<Longrightarrow> wf_ledger (S\<lparr>operationCount := c\<rparr>)"
  by (simp add: wf_ledger_def)

lemma book_wf:
  assumes b: "book S s l r = Some (res, S')" and wf: "wf_ledger S"
  shows "wf_ledger S'"
proof (cases "success res")
  case True
  then obtain k where res: "res = Booked k" using b
    by (cases res) (auto simp: book_def Let_def split: if_splits bind_splits prod.splits)
  from book_Booked [OF b [unfolded res]] obtain m seat1 seat2 g where
    s: "nat s < length (seats S)" and
    q: "queryRangeMax (seats S ! nat s) l r = Some (m, seat1)" and
    u: "applyRangeDelta seat1 l r 1 = Some seat2" and
    ug: "applyRangeDelta (globalTree S) l r 1 = Some g" and
    S': "S' = S\<lparr>seats := (seats S)[nat s := seat2], globalTree := g,
             bookings := bookings S @ [\<lparr>b_id = k, b_seatId = s, b_from = l, b_to = r, b_active = True\<rparr>],
             operationCount := js_increment (operationCount S)\<rparr>"
    by blast
  note w0 = wf_seat [OF wf s]
  from queryRangeMax_wf [OF q] w0 have w1: "wf_tree seat1" "seg_n seat1 = numSegments S" by auto
  from applyRangeDelta_wf [OF u] w1 have w2: "wf_tree seat2" "seg_n seat2 = numSegments S" by auto
  from applyRangeDelta_wf [OF ug] wf have wg: "wf_tree g" "seg_n g = numSegments S"
    by (auto simp: wf_ledger_def)
  show ?thesis unfolding S' by (rule wf_ledger_update [OF wf w2 wg])
next
  case False
  from book_fail [OF b False] consider
      (plain) "S' = S\<lparr>operationCount := js_increment (operationCount S)\<rparr>"
    | (conflict) m seat1 where "nat s < length (seats S)"
        "queryRangeMax (seats S ! nat s) l r = Some (m, seat1)"
        "S' = S\<lparr>seats := (seats S)[nat s := seat1], operationCount := js_increment (operationCount S)\<rparr>"
    by blast
  then show ?thesis
  proof cases
    case plain
    with wf show ?thesis by (simp add: wf_ledger_count)
  next
    case conflict
    note w0 = wf_seat [OF wf conflict(1)]
    from queryRangeMax_wf [OF conflict(2)] w0 have w1: "wf_tree seat1" "seg_n seat1 = numSegments S" by auto
    show ?thesis unfolding conflict(3) by (rule wf_ledger_update_seat [OF wf w1])
  qed
qed

lemma book_total:
  assumes wf: "wf_ledger S"
  shows "\<exists>res S'. book S s l r = Some (res, S')"
proof (cases "valid_request S s l r")
  case False
  then show ?thesis by (auto simp: book_def Let_def valid_request_def)
next
  case True
  then have s: "nat s < length (seats S)" and l: "0 \<le> l"
    using wf by (auto simp: valid_request_def wf_ledger_def)
  note w0 = wf_seat [OF wf s]
  from queryRangeMax_total [OF w0 [THEN conjunct1] l] obtain m seat1 where
    q: "queryRangeMax (seats S ! nat s) l r = Some (m, seat1)" by blast
  from queryRangeMax_wf [OF q] w0 have w1: "wf_tree seat1" by auto
  from applyRangeDelta_total [OF w1 l] obtain seat2 where
    u: "applyRangeDelta seat1 l r 1 = Some seat2" by blast
  have "wf_tree (globalTree S)" using wf by (simp add: wf_ledger_def)
  from applyRangeDelta_total [OF this l] obtain g where
    ug: "applyRangeDelta (globalTree S) l r 1 = Some g" by blast
  show ?thesis
    using True s q u ug by (auto simp: book_def Let_def valid_request_def rd_def wr_def)
qed

lemma cancel_wf:
  assumes c: "cancel S s l r = Some (res, S')" and wf: "wf_ledger S"
  shows "wf_ledger S'"
proof (cases "success res")
  case False
  from cancel_fail [OF c False] wf show ?thesis by (simp add: wf_ledger_count)
next
  case True
  then have v: "valid_request S s l r" using c
    by (auto simp: cancel_def Let_def valid_request_def split: if_splits)
  from c True obtain k seat1 g where
    s: "nat s < length (seats S)" and
    u: "applyRangeDelta (seats S ! nat s) l r (- 1) = Some seat1" and
    ug: "applyRangeDelta (globalTree S) l r (- 1) = Some g" and
    S': "S' = S\<lparr>seats := (seats S)[nat s := seat1], globalTree := g,
                   bookings := (bookings S)[k := (bookings S ! k)\<lparr>b_active := False\<rparr>],
                   operationCount := js_increment (operationCount S)\<rparr>"
    unfolding cancel_valid [OF v]
    by (auto simp: rd_def wr_def split: option.splits bind_splits if_splits)
  note w0 = wf_seat [OF wf s]
  from applyRangeDelta_wf [OF u] w0 have w1: "wf_tree seat1" "seg_n seat1 = numSegments S" by auto
  from applyRangeDelta_wf [OF ug] wf have wg: "wf_tree g" "seg_n g = numSegments S"
    by (auto simp: wf_ledger_def)
  show ?thesis unfolding S' by (rule wf_ledger_update [OF wf w1 wg])
qed

declare queryAvailable_loop.simps [simp del] allBooked_loop.simps [simp del]

lemma SegmentTree_new_wf: "SegmentTree_new k = Some t \<Longrightarrow> wf_tree t \<and> seg_n t = k"
  by (auto simp: SegmentTree_new_def wf_tree_def split: if_splits)

lemma new_seats_wf:
  "new_seats i k = Some ss \<Longrightarrow> length ss = i \<and> (\<forall>t \<in> set ss. wf_tree t \<and> seg_n t = k)"
proof (induction i arbitrary: ss)
  case 0
  then show ?case by simp
next
  case (Suc i)
  from Suc.prems obtain t ts where t: "SegmentTree_new k = Some t" and ts: "new_seats i k = Some ts"
    and ss: "ss = t # ts"
    by (auto split: bind_splits)
  from Suc.IH [OF ts] SegmentTree_new_wf [OF t] show ?case by (auto simp: ss)
qed

lemma new_wf: "SeatBookingSystem_new a b = Some S \<Longrightarrow> wf_ledger S"
  by (auto simp: SeatBookingSystem_new_def wf_ledger_def split: bind_splits
      dest: new_seats_wf SegmentTree_new_wf)

lemma isAvailable_wf:
  assumes a: "isAvailable S s l r = Some (b, S')" and wf: "wf_ledger S"
  shows "wf_ledger S'"
proof (cases "S' = S")
  case True
  with wf show ?thesis by simp
next
  case False
  with a obtain m seat1 where s: "nat s < length (seats S)"
    and q: "queryRangeMax (seats S ! nat s) l r = Some (m, seat1)"
    and S': "S' = S\<lparr>seats := (seats S)[nat s := seat1]\<rparr>"
    by (auto simp: isAvailable_def rd_def wr_def split: if_splits bind_splits)
  note w0 = wf_seat [OF wf s]
  from queryRangeMax_wf [OF q] w0 have w1: "wf_tree seat1" "seg_n seat1 = numSegments S" by auto
  from wf_ledger_update_seat [OF wf w1, where k = "nat s" and c = "operationCount S"] show ?thesis
    by (simp add: S')
qed

lemma queryAvailable_loop_wf:
  "queryAvailable_loop ss nSeats l r i av = Some (av', ss') \<Longrightarrow>
   (\<forall>t \<in> set ss. wf_tree t \<and> seg_n t = k) \<Longrightarrow>
   length ss' = length ss \<and> (\<forall>t \<in> set ss'. wf_tree t \<and> seg_n t = k)"
proof (induction ss nSeats l r i av arbitrary: av' ss' rule: queryAvailable_loop.induct)
  case (1 ss nSeats l r i av)
  show ?case
  proof (cases "i < nSeats")
    case False
    with "1.prems" show ?thesis by (subst (asm) queryAvailable_loop.simps) simp
  next
    case True
    from "1.prems"(1) True obtain seat m seat1 ss1 where
      rdq: "rd ss (nat i) = Some seat" and
      q: "queryRangeMax seat l r = Some (m, seat1)" and
      wrq: "wr ss (nat i) seat1 = Some ss1" and
      rest: "queryAvailable_loop ss1 nSeats l r (i + 1)
               (if m = 0 then av @ [i] else av) = Some (av', ss')"
      by (subst (asm) queryAvailable_loop.simps) (auto simp: bind_eq_Some_conv)
    from rd_SomeD [OF rdq] have s: "nat i < length ss" and seat: "seat = ss ! nat i" by auto
    from wr_SomeD [OF wrq] have ss1: "ss1 = ss[nat i := seat1]" by simp
    from "1.prems"(2) s have w0: "wf_tree seat" "seg_n seat = k" by (auto simp: seat)
    from queryRangeMax_wf [OF q] w0 have w1: "wf_tree seat1" "seg_n seat1 = k" by auto
    have w: "\<forall>t \<in> set ss1. wf_tree t \<and> seg_n t = k"
      using "1.prems"(2) w1 unfolding ss1 by (auto dest!: subsetD [OF set_update_subset_insert])
    from "1.IH" [OF True rdq q refl wrq rest w] show ?thesis by (simp add: ss1)
  qed
qed

lemma queryAvailable_wf:
  assumes a: "queryAvailable S l r = Some (qres, S')" and wf: "wf_ledger S"
  shows "wf_ledger S'"
proof (cases "l < 0 \<or> r > numStations S \<or> l \<ge> r")
  case True
  then have "queryAvailable S l r
             = Some (QueryInvalidRange l r, S\<lparr>operationCount := js_increment (operationCount S)\<rparr>)"
    unfolding queryAvailable_def Let_def by simp
  with a have "S' = S\<lparr>operationCount := js_increment (operationCount S)\<rparr>" by simp
  with wf show ?thesis by (simp add: wf_ledger_count)
next
  case False
  then have "queryAvailable S l r = do {
        (available, ss) \<leftarrow> queryAvailable_loop (seats S) (numSeats S) l r 0 [];
        Some (Available available, S\<lparr>operationCount := js_increment (operationCount S), seats := ss\<rparr>)
      }"
    unfolding queryAvailable_def Let_def by simp
  with a obtain av ss where lp: "queryAvailable_loop (seats S) (numSeats S) l r 0 [] = Some (av, ss)"
    and S': "S' = S\<lparr>operationCount := js_increment (operationCount S), seats := ss\<rparr>"
    by (auto simp: bind_eq_Some_conv)
  from wf have "\<forall>t \<in> set (seats S). wf_tree t \<and> seg_n t = numSegments S"
    by (simp add: wf_ledger_def)
  from queryAvailable_loop_wf [OF lp this]
  have "length ss = length (seats S)" "\<forall>t \<in> set ss. wf_tree t \<and> seg_n t = numSegments S"
    by simp_all
  with wf show ?thesis unfolding S' wf_ledger_def by simp
qed

lemma allBooked_loop_wf:
  "allBooked_loop t k i = Some (b, t') \<Longrightarrow> wf_tree t \<Longrightarrow> wf_tree t' \<and> seg_n t' = seg_n t"
proof (induction t k i arbitrary: b t' rule: allBooked_loop.induct)
  case (1 t k i)
  show ?case
  proof (cases "i < k")
    case False
    with "1.prems" show ?thesis by (subst (asm) allBooked_loop.simps) simp
  next
    case True
    with "1.prems"(1) obtain m t1 where q: "queryRangeMax t i (i + 1) = Some (m, t1)"
      and rest: "m = 0 \<and> t' = t1 \<or> m \<noteq> 0 \<and> allBooked_loop t1 k (i + 1) = Some (b, t')"
      by (subst (asm) allBooked_loop.simps) (auto split: if_splits bind_splits)
    from queryRangeMax_wf [OF q "1.prems"(2)] have w1: "wf_tree t1" "seg_n t1 = seg_n t" by auto
    from rest show ?thesis
    proof
      assume "m = 0 \<and> t' = t1"
      with w1 show ?thesis by simp
    next
      assume r: "m \<noteq> 0 \<and> allBooked_loop t1 k (i + 1) = Some (b, t')"
      from "1.IH" [OF True q refl r [THEN conjunct1] r [THEN conjunct2] w1(1)] w1 show ?thesis by auto
    qed
  qed
qed

lemma getSeatStatus_wf:
  assumes a: "getSeatStatus S s = Some (st, S')" and wf: "wf_ledger S"
  shows "wf_ledger S'"
proof (cases "s < 0 \<or> s \<ge> numSeats S")
  case True
  with a wf show ?thesis by (simp add: getSeatStatus_def)
next
  case False
  then have s: "nat s < length (seats S)" using wf by (auto simp: wf_ledger_def)
  note w0 = wf_seat [OF wf s]
  from a False s obtain m seat1 where
    q: "queryRangeMax (seats S ! nat s) 0 (numSegments S) = Some (m, seat1)" and
    rest: "(if m = 0 then Some (''available'', S\<lparr>seats := (seats S)[nat s := seat1]\<rparr>)
            else do {
              (allBooked, seat2) \<leftarrow> allBooked_loop seat1 (numSegments S) 0;
              Some (if allBooked then ''booked'' else ''partial'',
                    S\<lparr>seats := (seats S)[nat s := seat2]\<rparr>)
            }) = Some (st, S')"
    by (auto simp: getSeatStatus_def rd_def wr_def split: bind_splits cong: if_cong)
  from queryRangeMax_wf [OF q] w0 have w1: "wf_tree seat1" "seg_n seat1 = numSegments S" by auto
  show ?thesis
  proof (cases "m = 0")
    case True
    with rest have S': "S' = S\<lparr>seats := (seats S)[nat s := seat1]\<rparr>" by simp
    from wf_ledger_update_seat [OF wf w1, where k = "nat s" and c = "operationCount S"]
    show ?thesis by (simp add: S')
  next
    case m: False
    with rest obtain b seat2 where lp: "allBooked_loop seat1 (numSegments S) 0 = Some (b, seat2)"
      and S': "S' = S\<lparr>seats := (seats S)[nat s := seat2]\<rparr>"
      by (auto split: bind_splits)
    from allBooked_loop_wf [OF lp w1(1)] w1 have w2: "wf_tree seat2" "seg_n seat2 = numSegments S"
      by auto
    from wf_ledger_update_seat [OF wf w2, where k = "nat s" and c = "operationCount S"]
    show ?thesis by (simp add: S')
  qed
qed

lemma reachable_wf: "reachable S \<Longrightarrow> wf_ledger S"
proof (induction rule: reachable.induct)
  case (r_new nSeats nStations S)
  then show ?case by (rule new_wf)
next
  case (r_book S seatId l r res S')
  then show ?case using book_wf by blast
next
  case (r_cancel S seatId l r res S')
  then show ?case using cancel_wf by blast
next
  case (r_queryAvailable S l r qres S')
  then show ?case using queryAvailable_wf by blast
next
  case (r_isAvailable S seatId l r b S')
  then show ?case using isAvailable_wf by blast
next
  case (r_getSeatStatus S seatId st S')
  then show ?case using getSeatStatus_wf by blast
qed

subsection \<open>The aggregate tree counts the active records, segment by segment\<close>

text \<open>
  In every reachable state the effective value of each leaf of the aggregate tree is the
  number of active records whose range contains that segment. The stored maxima of the
  internal nodes are not covered by this statement.
\<close>

lemma leafEffective_zero:
  "wf_tree t \<Longrightarrow> \<forall>i < length (tree t). tree t ! i = 0 \<Longrightarrow>
   \<forall>i < length (lazy t). lazy t ! i = 0 \<Longrightarrow>
   node_ok (seg_n t) node s e \<Longrightarrow> leafEffective t node s e acc j = acc"
proof (induction t node s e acc j rule: leafEffective.induct)
  case (1 t node s e acc j)
  have "int node < 4 * seg_n t" using "1.prems"(4) by (simp add: node_ok_def)
  then have nd: "node < length (tree t)" "node < length (lazy t)"
    using "1.prems"(1) by (simp_all add: wf_tree_def)
  with "1.prems"(2,3) have z: "tree t ! node = 0" "lazy t ! node = 0" by simp_all
  show ?case
  proof (cases "e - s \<le> 1")
    case True
    with z show ?thesis by (subst leafEffective.simps) simp
  next
    case False
    then have len: "2 \<le> e - s" by simp
    note ch = node_ok_children [OF "1.prems"(4) len]
    show ?thesis
    proof (cases "j < (s + e) div 2")
      case True
      from "1.IH"(1) [OF False True "1.prems"(1,2,3) ch(2)] False True z show ?thesis
        by (subst leafEffective.simps) simp
    next
      case f: False
      from "1.IH"(2) [OF False f "1.prems"(1,2,3) ch(3)] False f z show ?thesis
        by (subst leafEffective.simps) simp
    qed
  qed
qed

lemma new_leaf_value:
  assumes "SegmentTree_new k = Some t" "0 \<le> j" "j < k"
  shows "leaf_value t j = 0"
proof -
  from assms have t: "t = \<lparr>seg_n = k, tree = replicate (nat (4 * k)) 0, lazy = replicate (nat (4 * k)) 0\<rparr>"
    by (auto simp: SegmentTree_new_def split: if_splits)
  have wf: "wf_tree t" using assms by (simp add: t wf_tree_def)
  have ok: "node_ok (seg_n t) 0 0 (seg_n t)" using assms by (intro root_ok) (simp add: t)
  have "leafEffective t 0 0 (seg_n t) 0 j = 0"
    by (rule leafEffective_zero [OF wf _ _ ok]) (simp_all add: t)
  then show ?thesis by (simp add: leaf_value_def)
qed

lemma active_count_append:
  "active_count (bs @ [b]) j = active_count bs j + (if b_active b \<and> b_from b \<le> j \<and> j < b_to b then 1 else 0)"
  by (simp add: active_count_def)

lemma filter_update_length:
  "k < length xs \<Longrightarrow> \<not> P y \<Longrightarrow>
   length (filter P xs) = length (filter P (xs[k := y])) + (if P (xs ! k) then 1 else 0)"
proof (induction xs arbitrary: k)
  case Nil
  then show ?case by simp
next
  case (Cons x xs)
  show ?case
  proof (cases k)
    case 0
    with Cons.prems show ?thesis by simp
  next
    case (Suc k')
    with Cons.prems have "k' < length xs" by simp
    from Cons.IH [OF this Cons.prems(2)] Suc show ?thesis by simp
  qed
qed

lemma active_count_retire:
  assumes "k < length bs"
  shows "active_count (bs[k := (bs ! k)\<lparr>b_active := False\<rparr>]) j
   = active_count bs j - (if b_active (bs ! k) \<and> b_from (bs ! k) \<le> j \<and> j < b_to (bs ! k) then 1 else 0)"
  using filter_update_length [OF assms,
      where P = "\<lambda>b. b_active b \<and> b_from b \<le> j \<and> j < b_to b" and y = "(bs ! k)\<lparr>b_active := False\<rparr>"]
  by (simp add: active_count_def)

lemma cancel_Cancelled:
  assumes c: "cancel S s l r = Some (Cancelled, S')"
  shows "valid_request S s l r \<and> nat s < length (seats S) \<and>
    (\<exists>k seat1 g. findIndex (exact_match s l r) (bookings S) = Some k \<and>
       applyRangeDelta (seats S ! nat s) l r (- 1) = Some seat1 \<and>
       applyRangeDelta (globalTree S) l r (- 1) = Some g \<and>
       S' = S\<lparr>seats := (seats S)[nat s := seat1], globalTree := g,
              bookings := (bookings S)[k := (bookings S ! k)\<lparr>b_active := False\<rparr>],
              operationCount := js_increment (operationCount S)\<rparr>)"
proof -
  have v: "valid_request S s l r" using c
    by (auto simp: cancel_def Let_def valid_request_def split: if_splits)
  from c show ?thesis unfolding cancel_valid [OF v] using v
    by (auto simp: rd_def wr_def split: option.splits bind_splits if_splits)
qed

lemma isAvailable_keeps:
  "isAvailable S s l r = Some (b, S') \<Longrightarrow>
   globalTree S' = globalTree S \<and> bookings S' = bookings S \<and> numSegments S' = numSegments S"
  by (auto simp: isAvailable_def split: if_splits bind_splits)

lemma queryAvailable_keeps:
  "queryAvailable S l r = Some (q, S') \<Longrightarrow>
   globalTree S' = globalTree S \<and> bookings S' = bookings S \<and> numSegments S' = numSegments S"
  by (auto simp: queryAvailable_def Let_def split: if_splits bind_splits)

lemma getSeatStatus_keeps:
  "getSeatStatus S s = Some (st, S') \<Longrightarrow>
   globalTree S' = globalTree S \<and> bookings S' = bookings S \<and> numSegments S' = numSegments S"
  by (auto simp: getSeatStatus_def split: if_splits bind_splits)

lemma aggregate_leaf_counts:
  "reachable S \<Longrightarrow> 0 \<le> j \<Longrightarrow> j < numSegments S \<Longrightarrow>
   leaf_value (globalTree S) j = active_count (bookings S) j"
proof (induction rule: reachable.induct)
  case (r_new nSeats nStations S)
  from r_new(1) obtain g where g: "SegmentTree_new (nStations - 1) = Some g"
    and S: "globalTree S = g" "bookings S = []" "numSegments S = nStations - 1"
    by (auto simp: SeatBookingSystem_new_def split: bind_splits)
  from new_leaf_value [OF g r_new(2)] r_new(3) show ?case by (simp add: S active_count_def)
next
  case (r_book S seatId l r res S')
  note wf = reachable_wf [OF r_book(1)]
  show ?case
  proof (cases "success res")
    case False
    from book_fail [OF r_book(2) False]
    have "globalTree S' = globalTree S \<and> bookings S' = bookings S \<and> numSegments S' = numSegments S"
      by auto
    with r_book show ?thesis by simp
  next
    case True
    with r_book(2) obtain k where res: "res = Booked k"
      by (cases res) (auto simp: book_def Let_def split: if_splits bind_splits prod.splits)
    from book_Booked [OF r_book(2) [unfolded res]] obtain g where
      ug: "applyRangeDelta (globalTree S) l r 1 = Some g" and
      S': "globalTree S' = g" "numSegments S' = numSegments S"
        "bookings S' = bookings S @ [\<lparr>b_id = k, b_seatId = seatId, b_from = l, b_to = r, b_active = True\<rparr>]"
      by auto
    have n: "seg_n (globalTree S) = numSegments S" using wf by (simp add: wf_ledger_def)
    from r_book(5) S' have j: "j < numSegments S" by simp
    from applyRangeDelta_leaf [OF ug r_book(4)] j n r_book(3) [OF r_book(4) j]
    show ?thesis by (simp add: S' active_count_append)
  qed
next
  case (r_cancel S seatId l r res S')
  note wf = reachable_wf [OF r_cancel(1)]
  show ?case
  proof (cases "success res")
    case False
    from cancel_fail [OF r_cancel(2) False] r_cancel show ?thesis by simp
  next
    case True
    with r_cancel(2) have res: "res = Cancelled"
      by (cases res) (auto simp: cancel_def Let_def split: if_splits option.splits bind_splits)
    from cancel_Cancelled [OF r_cancel(2) [unfolded res]] obtain k g where
      fi: "findIndex (exact_match seatId l r) (bookings S) = Some k" and
      ug: "applyRangeDelta (globalTree S) l r (- 1) = Some g" and
      S': "globalTree S' = g" "numSegments S' = numSegments S"
        "bookings S' = (bookings S)[k := (bookings S ! k)\<lparr>b_active := False\<rparr>]"
      by auto
    from findIndex_Some [OF fi] have k: "k < length (bookings S)"
      and m: "b_active (bookings S ! k)" "b_from (bookings S ! k) = l" "b_to (bookings S ! k) = r"
      by (auto simp: exact_match_def)
    have n: "seg_n (globalTree S) = numSegments S" using wf by (simp add: wf_ledger_def)
    from r_cancel(5) S' have j: "j < numSegments S" by simp
    from applyRangeDelta_leaf [OF ug r_cancel(4)] j n r_cancel(3) [OF r_cancel(4) j]
    show ?thesis by (simp add: S' active_count_retire [OF k] m)
  qed
next
  case (r_queryAvailable S l r qres S')
  from queryAvailable_keeps [OF r_queryAvailable(2)] r_queryAvailable show ?case by simp
next
  case (r_isAvailable S seatId l r b S')
  from isAvailable_keeps [OF r_isAvailable(2)] r_isAvailable show ?case by simp
next
  case (r_getSeatStatus S seatId st S')
  from getSeatStatus_keeps [OF r_getSeatStatus(2)] r_getSeatStatus show ?case by simp
qed

subsection \<open>The operation counter, the configuration and the records\<close>

lemma js_increment_range:
  "0 \<le> c \<Longrightarrow> c \<le> 2 ^ 53 \<Longrightarrow> 0 \<le> js_increment c \<and> js_increment c \<le> 2 ^ 53"
  by (simp add: js_increment_def)

lemma js_increment_below: "c < 2 ^ 53 \<Longrightarrow> js_increment c = c + 1"
  by (simp add: js_increment_def)

lemma js_increment_top: "js_increment (2 ^ 53) = 2 ^ 53"
  by (simp add: js_increment_def)

lemma book_success: "book S s l r = Some (res, S') \<Longrightarrow> success res \<Longrightarrow> \<exists>k. res = Booked k"
  by (cases res) (auto simp: book_def Let_def split: if_splits bind_splits prod.splits)

lemma cancel_success: "cancel S s l r = Some (res, S') \<Longrightarrow> success res \<Longrightarrow> res = Cancelled"
  by (cases res) (auto simp: cancel_def Let_def split: if_splits option.splits bind_splits)

lemma book_config:
  assumes "book S s l r = Some (res, S')"
  shows "numSeats S' = numSeats S \<and> numStations S' = numStations S \<and>
         operationCount S' = js_increment (operationCount S)"
proof (cases "success res")
  case True
  from book_success [OF assms True] obtain k where "res = Booked k" ..
  with book_Booked [of S s l r k S'] assms show ?thesis by auto
next
  case False
  from book_fail [OF assms False] show ?thesis by auto
qed

lemma cancel_config:
  assumes "cancel S s l r = Some (res, S')"
  shows "numSeats S' = numSeats S \<and> numStations S' = numStations S \<and>
         operationCount S' = js_increment (operationCount S)"
proof (cases "success res")
  case True
  from cancel_success [OF assms True] have "res = Cancelled" .
  with cancel_Cancelled [of S s l r S'] assms show ?thesis by auto
next
  case False
  from cancel_fail [OF assms False] show ?thesis by simp
qed

lemma queryAvailable_config:
  "queryAvailable S l r = Some (q, S') \<Longrightarrow>
   numSeats S' = numSeats S \<and> numStations S' = numStations S \<and>
   operationCount S' = js_increment (operationCount S)"
  by (auto simp: queryAvailable_def Let_def split: if_splits bind_splits)

lemma isAvailable_config:
  "isAvailable S s l r = Some (b, S') \<Longrightarrow>
   numSeats S' = numSeats S \<and> numStations S' = numStations S \<and>
   operationCount S' = operationCount S"
  by (auto simp: isAvailable_def split: if_splits bind_splits)

lemma getSeatStatus_config:
  "getSeatStatus S s = Some (st, S') \<Longrightarrow>
   numSeats S' = numSeats S \<and> numStations S' = numStations S \<and>
   operationCount S' = operationCount S"
  by (auto simp: getSeatStatus_def split: if_splits bind_splits)

lemma reachable_counter: "reachable S \<Longrightarrow> 0 \<le> operationCount S \<and> operationCount S \<le> 2 ^ 53"
proof (induction rule: reachable.induct)
  case (r_new nSeats nStations S)
  then show ?case by (auto simp: SeatBookingSystem_new_def split: bind_splits)
next
  case (r_book S seatId l r res S')
  with book_config [OF r_book(2)] js_increment_range [of "operationCount S"] show ?case by simp
next
  case (r_cancel S seatId l r res S')
  with cancel_config [OF r_cancel(2)] js_increment_range [of "operationCount S"] show ?case by simp
next
  case (r_queryAvailable S l r qres S')
  with queryAvailable_config [OF r_queryAvailable(2)] js_increment_range [of "operationCount S"]
  show ?case by simp
next
  case (r_isAvailable S seatId l r b S')
  with isAvailable_config [OF r_isAvailable(2)] show ?case by simp
next
  case (r_getSeatStatus S seatId st S')
  with getSeatStatus_config [OF r_getSeatStatus(2)] show ?case by simp
qed

lemma records_ok_keep:
  assumes "records_ok S" "bookings S' = bookings S" "numSeats S' = numSeats S"
    "numStations S' = numStations S"
  shows "records_ok S'"
  using assms by (simp add: records_ok_def valid_request_def)

lemma reachable_records_ok: "reachable S \<Longrightarrow> records_ok S"
proof (induction rule: reachable.induct)
  case (r_new nSeats nStations S)
  then show ?case by (auto simp: SeatBookingSystem_new_def records_ok_def split: bind_splits)
next
  case (r_book S seatId l r res S')
  show ?case
  proof (cases "success res")
    case False
    from book_fail [OF r_book(2) False] book_config [OF r_book(2)]
    show ?thesis by (intro records_ok_keep [OF r_book(3)]) auto
  next
    case True
    from book_success [OF r_book(2) True] obtain k where res: "res = Booked k" ..
    from book_Booked [OF r_book(2) [unfolded res]] have
      v: "valid_request S seatId l r" and
      b: "bookings S' = bookings S @ [\<lparr>b_id = k, b_seatId = seatId, b_from = l, b_to = r, b_active = True\<rparr>]"
      by auto
    from r_book(3) v book_config [OF r_book(2)] show ?thesis
      by (auto simp: records_ok_def valid_request_def b)
  qed
next
  case (r_cancel S seatId l r res S')
  show ?case
  proof (cases "success res")
    case False
    from cancel_fail [OF r_cancel(2) False]
    show ?thesis by (intro records_ok_keep [OF r_cancel(3)]) auto
  next
    case True
    from cancel_success [OF r_cancel(2) True] have res: "res = Cancelled" .
    from cancel_Cancelled [OF r_cancel(2) [unfolded res]] obtain k where
      fi: "findIndex (exact_match seatId l r) (bookings S) = Some k" and
      b: "bookings S' = (bookings S)[k := (bookings S ! k)\<lparr>b_active := False\<rparr>]"
      by auto
    from findIndex_Some [OF fi] have k: "k < length (bookings S)" by simp
    have "valid_request S' (b_seatId x) (b_from x) (b_to x)" if "x \<in> set (bookings S')" for x
    proof -
      from that b have "x = (bookings S ! k)\<lparr>b_active := False\<rparr> \<or> x \<in> set (bookings S)"
        using set_update_subset_insert [of "bookings S" k] by auto
      then have "valid_request S (b_seatId x) (b_from x) (b_to x)"
        using r_cancel(3) k by (auto simp: records_ok_def)
      with cancel_config [OF r_cancel(2)] show ?thesis by (simp add: valid_request_def)
    qed
    then show ?thesis by (simp add: records_ok_def)
  qed
next
  case (r_queryAvailable S l r qres S')
  from queryAvailable_keeps [OF r_queryAvailable(2)] queryAvailable_config [OF r_queryAvailable(2)]
  show ?case by (intro records_ok_keep [OF r_queryAvailable(3)]) auto
next
  case (r_isAvailable S seatId l r b S')
  from isAvailable_keeps [OF r_isAvailable(2)] isAvailable_config [OF r_isAvailable(2)]
  show ?case by (intro records_ok_keep [OF r_isAvailable(3)]) auto
next
  case (r_getSeatStatus S seatId st S')
  from getSeatStatus_keeps [OF r_getSeatStatus(2)] getSeatStatus_config [OF r_getSeatStatus(2)]
  show ?case by (intro records_ok_keep [OF r_getSeatStatus(3)]) auto
qed

lemma cancel_invalid:
  "\<not> valid_request S s l r \<Longrightarrow>
   cancel S s l r = Some (if s < 0 \<or> numSeats S \<le> s then InvalidResourceId s else InvalidRange l r,
                          S\<lparr>operationCount := js_increment (operationCount S)\<rparr>)"
  by (auto simp: cancel_def Let_def valid_request_def)

lemma getSeatStatus_invalid_seat:
  "seatId < 0 \<or> numSeats S \<le> seatId \<Longrightarrow> getSeatStatus S seatId = Some (''available'', S)"
  by (simp add: getSeatStatus_def)

subsection \<open>Rejected commands, and a booking followed by its cancellation\<close>

lemma failure_effects:
  "(book S s l r = Some (res, S') \<and> \<not> success res \<longrightarrow>
      bookings S' = bookings S \<and> globalTree S' = globalTree S \<and>
      operationCount S' = js_increment (operationCount S) \<and>
      numSeats S' = numSeats S \<and> numStations S' = numStations S \<and>
      numSegments S' = numSegments S \<and>
      length (seats S') = length (seats S) \<and>
      (\<forall>k. k \<noteq> nat s \<longrightarrow> seats S' ! k = seats S ! k) \<and>
      (\<forall>i. effective (seats S' ! nat s) i = effective (seats S ! nat s) i) \<and>
      ((\<forall>cs. res \<noteq> RangeConflict s cs) \<longrightarrow> seats S' = seats S)) \<and>
   (cancel S s l r = Some (res2, S2) \<and> \<not> success res2 \<longrightarrow>
      S2 = S\<lparr>operationCount := js_increment (operationCount S)\<rparr>) \<and>
   (queryAvailable S l r = Some (QueryInvalidRange a b, S3) \<longrightarrow>
      S3 = S\<lparr>operationCount := js_increment (operationCount S)\<rparr>)"
proof (intro conjI impI)
  assume a: "book S s l r = Some (res, S') \<and> \<not> success res"
  from book_fail [of S s l r res S'] a consider
      (plain) "S' = S\<lparr>operationCount := js_increment (operationCount S)\<rparr>"
        "res = InvalidResourceId s \<or> res = InvalidRange l r"
    | (conflict) m seat1 cs where "nat s < length (seats S)"
        "queryRangeMax (seats S ! nat s) l r = Some (m, seat1)"
        "res = RangeConflict s cs"
        "S' = S\<lparr>seats := (seats S)[nat s := seat1], operationCount := js_increment (operationCount S)\<rparr>"
    by blast
  then have main: "bookings S' = bookings S \<and> globalTree S' = globalTree S \<and>
      operationCount S' = js_increment (operationCount S) \<and>
      numSeats S' = numSeats S \<and> numStations S' = numStations S \<and>
      numSegments S' = numSegments S \<and>
      length (seats S') = length (seats S) \<and>
      (\<forall>k. k \<noteq> nat s \<longrightarrow> seats S' ! k = seats S ! k) \<and>
      (\<forall>i. effective (seats S' ! nat s) i = effective (seats S ! nat s) i) \<and>
      ((\<forall>cs. res \<noteq> RangeConflict s cs) \<longrightarrow> seats S' = seats S)"
  proof cases
    case plain
    then show ?thesis by simp
  next
    case conflict
    have "effective (seats S' ! nat s) i = effective (seats S ! nat s) i" for i
      using queryRangeMax_effective [OF conflict(2), of i] conflict(1) by (simp add: conflict(4))
    then show ?thesis by (simp add: conflict(3,4))
  qed
  then show "bookings S' = bookings S" "globalTree S' = globalTree S"
    "operationCount S' = js_increment (operationCount S)"
    "numSeats S' = numSeats S" "numStations S' = numStations S" "numSegments S' = numSegments S"
    "length (seats S') = length (seats S)"
    "\<forall>k. k \<noteq> nat s \<longrightarrow> seats S' ! k = seats S ! k"
    "\<forall>i. effective (seats S' ! nat s) i = effective (seats S ! nat s) i"
    by blast+
  assume "\<forall>cs. res \<noteq> RangeConflict s cs"
  with main show "seats S' = seats S" by blast
next
  assume "cancel S s l r = Some (res2, S2) \<and> \<not> success res2"
  with cancel_fail [of S s l r res2 S2] show "S2 = S\<lparr>operationCount := js_increment (operationCount S)\<rparr>"
    by blast
next
  assume "queryAvailable S l r = Some (QueryInvalidRange a b, S3)"
  then show "S3 = S\<lparr>operationCount := js_increment (operationCount S)\<rparr>"
    by (auto simp: queryAvailable_def Let_def split: if_splits bind_splits)
qed

lemma book_cancel_restores_leaves:
  assumes re: "reachable S" and b: "book S s l r = Some (Booked k, S1)"
  shows "\<exists>S2. cancel S1 s l r = Some (Cancelled, S2) \<and>
     (\<forall>j. 0 \<le> j \<and> j < numSegments S \<longrightarrow>
        leaf_value (seats S2 ! nat s) j = leaf_value (seats S ! nat s) j \<and>
        leaf_value (globalTree S2) j = leaf_value (globalTree S) j \<and>
        map_option fst (queryRangeMax (seats S2 ! nat s) j (j + 1))
          = map_option fst (queryRangeMax (seats S ! nat s) j (j + 1)) \<and>
        map_option fst (queryRangeMax (globalTree S2) j (j + 1))
          = map_option fst (queryRangeMax (globalTree S) j (j + 1)))"
proof -
  have wf: "wf_ledger S" using re by (rule reachable_wf)
  from book_Booked [OF b] obtain m seat1 seat2 g where
    v: "valid_request S s l r" and s: "nat s < length (seats S)" and
    q: "queryRangeMax (seats S ! nat s) l r = Some (m, seat1)" and
    u: "applyRangeDelta seat1 l r 1 = Some seat2" and
    ug: "applyRangeDelta (globalTree S) l r 1 = Some g" and
    S1: "S1 = S\<lparr>seats := (seats S)[nat s := seat2], globalTree := g,
             bookings := bookings S @ [\<lparr>b_id = k, b_seatId = s, b_from = l, b_to = r, b_active = True\<rparr>],
             operationCount := js_increment (operationCount S)\<rparr>"
    by blast
  let ?seat = "seats S ! nat s"
  note w0 = wf_seat [OF wf s]
  from queryRangeMax_wf [OF q] w0 have w1: "wf_tree seat1" "seg_n seat1 = numSegments S" by auto
  from applyRangeDelta_wf [OF u] w1 have w2: "wf_tree seat2" "seg_n seat2 = numSegments S" by auto
  have wg0: "wf_tree (globalTree S)" "seg_n (globalTree S) = numSegments S"
    using wf by (auto simp: wf_ledger_def)
  from applyRangeDelta_wf [OF ug] wg0 have wg: "wf_tree g" "seg_n g = numSegments S" by auto
  have l0: "0 \<le> l" using v by (simp add: valid_request_def)
  from applyRangeDelta_total [OF w2(1) l0] obtain seat3 where
    u3: "applyRangeDelta seat2 l r (- 1) = Some seat3" by blast
  from applyRangeDelta_total [OF wg(1) l0] obtain g3 where
    ug3: "applyRangeDelta g l r (- 1) = Some g3" by blast
  from applyRangeDelta_wf [OF u3] w2 have w3: "wf_tree seat3" "seg_n seat3 = numSegments S" by auto
  from applyRangeDelta_wf [OF ug3] wg have wg3: "wf_tree g3" "seg_n g3 = numSegments S" by auto
  have v1: "valid_request S1 s l r" using v by (simp add: valid_request_def S1)
  have "\<not> (\<forall>x \<in> set (bookings S1). \<not> exact_match s l r x)"
    by (simp add: S1 exact_match_def)
  then obtain k' where fi: "findIndex (exact_match s l r) (bookings S1) = Some k'"
    using findIndex_None [of "exact_match s l r" "bookings S1"] by (cases "findIndex (exact_match s l r) (bookings S1)") auto
  define S2 where "S2 = S1\<lparr>seats := (seats S1)[nat s := seat3], globalTree := g3,
                   bookings := (bookings S1)[k' := (bookings S1 ! k')\<lparr>b_active := False\<rparr>],
                   operationCount := js_increment (operationCount S1)\<rparr>"
  have c: "cancel S1 s l r = Some (Cancelled, S2)"
    unfolding cancel_valid [OF v1] fi S2_def
    using s u3 ug3 by (simp add: S1 rd_def wr_def)
  have seat2': "seats S2 ! nat s = seat3" and g2': "globalTree S2 = g3"
    using s by (simp_all add: S2_def S1)
  have leaf: "leaf_value seat3 j = leaf_value ?seat j \<and> leaf_value g3 j = leaf_value (globalTree S) j"
    if j: "0 \<le> j" "j < numSegments S" for j
  proof -
    have "leaf_value seat3 j = leaf_value seat2 j + (if l \<le> j \<and> j < r then - 1 else 0)"
      using applyRangeDelta_leaf [OF u3 j(1)] j(2) w2 by simp
    moreover have "leaf_value seat2 j = leaf_value seat1 j + (if l \<le> j \<and> j < r then 1 else 0)"
      using applyRangeDelta_leaf [OF u j(1)] j(2) w1 by simp
    moreover have "leaf_value seat1 j = leaf_value ?seat j" by (rule queryRangeMax_leaf [OF q])
    moreover have "leaf_value g3 j = leaf_value g j + (if l \<le> j \<and> j < r then - 1 else 0)"
      using applyRangeDelta_leaf [OF ug3 j(1)] j(2) wg by simp
    moreover have "leaf_value g j = leaf_value (globalTree S) j + (if l \<le> j \<and> j < r then 1 else 0)"
      using applyRangeDelta_leaf [OF ug j(1)] j(2) wg0 by simp
    ultimately show ?thesis by simp
  qed
  have "leaf_value (seats S2 ! nat s) j = leaf_value ?seat j \<and>
        leaf_value (globalTree S2) j = leaf_value (globalTree S) j \<and>
        map_option fst (queryRangeMax (seats S2 ! nat s) j (j + 1))
          = map_option fst (queryRangeMax ?seat j (j + 1)) \<and>
        map_option fst (queryRangeMax (globalTree S2) j (j + 1))
          = map_option fst (queryRangeMax (globalTree S) j (j + 1))"
    if j: "0 \<le> j \<and> j < numSegments S" for j
  proof -
    from leaf [of j] j have lv: "leaf_value seat3 j = leaf_value ?seat j"
      "leaf_value g3 j = leaf_value (globalTree S) j" by auto
    have a: "map_option fst (queryRangeMax seat3 j (j + 1)) = map_option fst (queryRangeMax ?seat j (j + 1))"
      by (rule unit_query_eq) (use w0 w3 lv j in auto)
    have b: "map_option fst (queryRangeMax g3 j (j + 1)) = map_option fst (queryRangeMax (globalTree S) j (j + 1))"
      by (rule unit_query_eq) (use wg0 wg3 lv j in auto)
    show ?thesis unfolding seat2' g2' using lv a b by simp
  qed
  with c show ?thesis by blast
qed

subsection \<open>The example ledgers\<close>

lemma example_fresh_new: "SeatBookingSystem_new 1 5 = Some example_fresh"
  by code_simp

lemma example_booked_book: "book example_fresh 0 0 2 = Some (Booked 1, example_booked)"
  by code_simp

lemma example_whole_book: "SeatBookingSystem_new 1 6 \<bind> (\<lambda>S. book S 0 0 5) = Some (Booked 1, example_whole)"
  by code_simp

lemma example_fresh_reachable: "reachable example_fresh"
  by (rule r_new [OF example_fresh_new])

lemma example_booked_reachable: "reachable example_booked"
  by (rule r_book [OF example_fresh_reachable example_booked_book])

lemma example_whole_wf: "wf_ledger example_whole"
  by (simp add: wf_ledger_def wf_tree_def example_whole_def)

lemma example_whole_reachable: "reachable example_whole"
proof -
  from example_whole_book obtain S0 where n: "SeatBookingSystem_new 1 6 = Some S0"
    and b: "book S0 0 0 5 = Some (Booked 1, example_whole)"
    by (auto simp: bind_eq_Some_conv)
  from r_book [OF r_new [OF n] b] show ?thesis .
qed

section \<open>The claims\<close>

text \<open>
  Claim C1. After any sequence of \<open>applyRangeDelta(l, r, delta)\<close> calls, \<open>queryRangeMax(l', r')\<close>
  is claimed to return the maximum, over the segments of \<open>[l', r')\<close>, of the sum of the
  deltas whose range contains the segment. On a tree of two segments, after
  \<open>applyRangeDelta(0, 1, 1)\<close>, the single-segment queries return 1 and 0, yet
  \<open>queryRangeMax(0, 2)\<close> returns 2: when \<open>update\<close> recomputes a node it adds each child's
  pending lazy value to the child's stored value, which already contains it.
\<close>

theorem C1_range_query_overcounts:
  "do { t0 \<leftarrow> SegmentTree_new 2;
        t1 \<leftarrow> applyRangeDelta t0 0 1 1;
        (a, t2) \<leftarrow> queryRangeMax t1 0 1;
        (b, t3) \<leftarrow> queryRangeMax t2 1 2;
        (c, t4) \<leftarrow> queryRangeMax t3 0 2;
        Some (a, b, c) } = Some (1, 0, 2)"
  by code_simp

text \<open>
  Claim C2. While a booking of a seat is active, a second booking of the same seat whose
  range shares a segment with it is claimed to fail with a range conflict and to create no
  record. In the run below every range lies inside the four segments of the ledger; the
  two cancelled bookings leave the root of the seat's tree at -1, the booking of
  \<open>[0, 4)\<close> raises it to 0 only, and the same range is booked a second time: the final
  state holds two active records of seat 0 over \<open>[0, 4)\<close>.
\<close>

theorem C2_double_booking:
  "do { S0 \<leftarrow> SeatBookingSystem_new 1 5;
        (r1, S1) \<leftarrow> book S0 0 0 2;
        (a1, S2) \<leftarrow> isAvailable S1 0 0 1;
        (r2, S3) \<leftarrow> cancel S2 0 0 2;
        (r3, S4) \<leftarrow> book S3 0 2 4;
        (a2, S5) \<leftarrow> isAvailable S4 0 2 3;
        (r4, S6) \<leftarrow> cancel S5 0 2 4;
        (r5, S7) \<leftarrow> book S6 0 0 4;
        (r6, S8) \<leftarrow> book S7 0 0 4;
        Some ([r1, r2, r3, r4, r5, r6], filter b_active (bookings S8)) }
   = Some ([Booked 1, Cancelled, Booked 2, Cancelled, Booked 3, Booked 4],
           [\<lparr>b_id = 3, b_seatId = 0, b_from = 0, b_to = 4, b_active = True\<rparr>,
            \<lparr>b_id = 4, b_seatId = 0, b_from = 0, b_to = 4, b_active = True\<rparr>])"
  by code_simp

text \<open>
  Claim C3, as amended. The operation counter is a JavaScript number that the constructor
  sets to 0 and that only \<open>operationCount++\<close> changes, so it lies between 0 and \<open>2 ^ 53\<close>;
  \<open>operationCount++\<close> adds exactly one while the counter is below \<open>2 ^ 53\<close> and leaves it
  at \<open>2 ^ 53\<close> once it is there. With the counter in that range, a command that
  returns a failure result leaves the records, the aggregate tree and the configuration
  unchanged and advances the operation counter in that way. A failure of \<open>cancel\<close> or an
  invalid range given to \<open>queryAvailable\<close> changes nothing else. A failure of \<open>book\<close>
  leaves every other seat's tree unchanged and keeps the effective value of every node
  of the addressed seat's tree; unless it is a range conflict it leaves all seat trees
  unchanged (on a range conflict the availability query has pushed lazy values down in
  the addressed seat's tree).
\<close>

theorem C3_failure_effects:
  assumes "0 \<le> operationCount S" and "operationCount S \<le> 2 ^ 53"
  shows
  "(book S s l r = Some (res, S') \<and> \<not> success res \<longrightarrow>
      bookings S' = bookings S \<and> globalTree S' = globalTree S \<and>
      operationCount S' = (if operationCount S < 2 ^ 53 then operationCount S + 1 else operationCount S) \<and>
      numSeats S' = numSeats S \<and> numStations S' = numStations S \<and>
      numSegments S' = numSegments S \<and>
      length (seats S') = length (seats S) \<and>
      (\<forall>k. k \<noteq> nat s \<longrightarrow> seats S' ! k = seats S ! k) \<and>
      (\<forall>i. effective (seats S' ! nat s) i = effective (seats S ! nat s) i) \<and>
      ((\<forall>cs. res \<noteq> RangeConflict s cs) \<longrightarrow> seats S' = seats S)) \<and>
   (cancel S s l r = Some (res2, S2) \<and> \<not> success res2 \<longrightarrow>
      S2 = S\<lparr>operationCount :=
               if operationCount S < 2 ^ 53 then operationCount S + 1 else operationCount S\<rparr>) \<and>
   (queryAvailable S l r = Some (QueryInvalidRange a b, S3) \<longrightarrow>
      S3 = S\<lparr>operationCount :=
               if operationCount S < 2 ^ 53 then operationCount S + 1 else operationCount S\<rparr>)"
  using failure_effects [of S s l r res S' res2 S2 a b S3]
  unfolding js_increment_def by blast

text \<open>
  Claim C3 as stated (the whole ledger state, operation counter included, is unchanged by
  a rejected command) fails: \<open>book\<close> with seat -1 on a fresh ledger is rejected and the
  state it leaves differs from the state before.
\<close>

theorem C3_operation_counter_counterexample:
  "book example_fresh (- 1) 0 1 = Some (InvalidResourceId (- 1), example_fresh\<lparr>operationCount := 1\<rparr>) \<and>
   \<not> success (InvalidResourceId (- 1)) \<and>
   example_fresh\<lparr>operationCount := 1\<rparr> \<noteq> example_fresh"
  by (simp add: book_def example_fresh_def js_increment_def)

text \<open>
  The amended claim C3 at concrete inputs: on \<open>example_booked\<close>, whose counter is 1,
  \<open>book(0, 1, 3)\<close> is a range conflict that changes the stored arrays of seat 0, keeps
  every effective value and leaves the counter at 2; \<open>cancel(0, 0, 1)\<close> finds no booking;
  \<open>queryAvailable(3, 2)\<close> has an invalid range. With the counter at \<open>2 ^ 53\<close> the rejected
  \<open>cancel(0, 0, 1)\<close> leaves the whole state as it is.
\<close>

theorem C3_failure_effects_witness:
  "0 \<le> operationCount example_booked \<and> operationCount example_booked \<le> 2 ^ 53 \<and>
   book example_booked 0 1 3 = Some (RangeConflict 0 [(1, 3)], example_probed) \<and>
   \<not> success (RangeConflict 0 [(1, 3)]) \<and>
   bookings example_probed = bookings example_booked \<and>
   globalTree example_probed = globalTree example_booked \<and>
   operationCount example_booked = 1 \<and> operationCount example_probed = 2 \<and>
   seats example_probed \<noteq> seats example_booked \<and>
   (\<forall>i. effective (seats example_probed ! 0) i = effective (seats example_booked ! 0) i) \<and>
   cancel example_booked 0 0 1 = Some (BookingNotFound 0 0 1, example_booked\<lparr>operationCount := 2\<rparr>) \<and>
   queryAvailable example_booked 3 2 = Some (QueryInvalidRange 3 2, example_booked\<lparr>operationCount := 2\<rparr>) \<and>
   cancel (example_booked\<lparr>operationCount := 2 ^ 53\<rparr>) 0 0 1
     = Some (BookingNotFound 0 0 1, example_booked\<lparr>operationCount := 2 ^ 53\<rparr>)"
proof -
  have r: "0 \<le> operationCount example_booked" "operationCount example_booked \<le> 2 ^ 53"
    and c1: "operationCount example_booked = 1"
    by (simp_all add: example_booked_def)
  have b: "book example_booked 0 1 3 = Some (RangeConflict 0 [(1, 3)], example_probed)"
    by code_simp
  have c: "cancel example_booked 0 0 1 = Some (BookingNotFound 0 0 1, example_booked\<lparr>operationCount := 2\<rparr>)"
    by code_simp
  have q: "queryAvailable example_booked 3 2 = Some (QueryInvalidRange 3 2, example_booked\<lparr>operationCount := 2\<rparr>)"
    by code_simp
  have ne: "seats example_probed \<noteq> seats example_booked"
    by (simp add: example_probed_def example_booked_def)
  from C3_failure_effects [OF r, of 0 1 3 "RangeConflict 0 [(1, 3)]" example_probed
      "BookingNotFound 0 0 1" "example_booked\<lparr>operationCount := 2\<rparr>" 3 2
      "example_booked\<lparr>operationCount := 2\<rparr>"] b c1
  have "bookings example_probed = bookings example_booked \<and>
        globalTree example_probed = globalTree example_booked \<and>
        operationCount example_probed = 2 \<and>
        (\<forall>i. effective (seats example_probed ! 0) i = effective (seats example_booked ! 0) i)"
    by simp
  moreover
  have "cancel (example_booked\<lparr>operationCount := 2 ^ 53\<rparr>) 0 0 1
      = Some (BookingNotFound 0 0 1, example_booked\<lparr>operationCount := 2 ^ 53\<rparr>)"
    by (simp add: cancel_def example_booked_def js_increment_def exact_match_def)
  ultimately show ?thesis using r c1 b c q ne by simp
qed

text \<open>
  Claim C4, as amended. In every reachable ledger state and for every seat and range:
  \<open>cancel\<close> succeeds if and only if the records hold an active record of that seat with
  exactly that range. Without one it changes nothing but the operation counter and
  returns the invalid-seat failure when the seat is outside \<open>[0, numSeats)\<close>, else the
  invalid-range failure when the range does not pass the guard, else the
  booking-not-found failure. With one it applies delta -1 over \<open>[l, r)\<close> to the seat's
  tree and to the aggregate tree and marks the first such record inactive. The counter
  lies between 0 and \<open>2 ^ 53\<close>, and it advances by one while it is below \<open>2 ^ 53\<close>.
\<close>

theorem C4_cancel_exact_match:
  assumes re: "reachable S"
  shows
   "((\<exists>S'. cancel S s l r = Some (Cancelled, S')) \<longleftrightarrow>
       (\<exists>b \<in> set (bookings S). exact_match s l r b)) \<and>
    ((\<forall>b \<in> set (bookings S). \<not> exact_match s l r b) \<longrightarrow>
       cancel S s l r =
         Some (if s < 0 \<or> numSeats S \<le> s then InvalidResourceId s
               else if l < 0 \<or> numStations S < r \<or> r \<le> l then InvalidRange l r
               else BookingNotFound s l r,
               S\<lparr>operationCount := js_increment (operationCount S)\<rparr>)) \<and>
    ((\<exists>b \<in> set (bookings S). exact_match s l r b) \<longrightarrow>
       (\<exists>k seat1 g.
          findIndex (exact_match s l r) (bookings S) = Some k \<and>
          k < length (bookings S) \<and> exact_match s l r (bookings S ! k) \<and>
          applyRangeDelta (seats S ! nat s) l r (- 1) = Some seat1 \<and>
          applyRangeDelta (globalTree S) l r (- 1) = Some g \<and>
          cancel S s l r = Some (Cancelled,
            S\<lparr>seats := (seats S)[nat s := seat1], globalTree := g,
               bookings := (bookings S)[k := (bookings S ! k)\<lparr>b_active := False\<rparr>],
               operationCount := js_increment (operationCount S)\<rparr>))) \<and>
    0 \<le> operationCount S \<and> operationCount S \<le> 2 ^ 53 \<and>
    js_increment (operationCount S)
      = (if operationCount S < 2 ^ 53 then operationCount S + 1 else operationCount S)"
proof -
  have wf: "wf_ledger S" using re by (rule reachable_wf)
  have ok: "records_ok S" using re by (rule reachable_records_ok)
  let ?match = "\<exists>b \<in> set (bookings S). exact_match s l r b"
  have valid_of_match: "valid_request S s l r" if ?match
    using that ok by (auto simp: records_ok_def exact_match_def)
  have none: "cancel S s l r =
         Some (if s < 0 \<or> numSeats S \<le> s then InvalidResourceId s
               else if l < 0 \<or> numStations S < r \<or> r \<le> l then InvalidRange l r
               else BookingNotFound s l r,
               S\<lparr>operationCount := js_increment (operationCount S)\<rparr>)"
    if nm: "\<forall>b \<in> set (bookings S). \<not> exact_match s l r b"
  proof (cases "valid_request S s l r")
    case True
    from nm have "findIndex (exact_match s l r) (bookings S) = None" by (simp add: findIndex_None)
    then have "cancel S s l r
        = Some (BookingNotFound s l r, S\<lparr>operationCount := js_increment (operationCount S)\<rparr>)"
      unfolding cancel_valid [OF True] by simp
    with True show ?thesis by (auto simp: valid_request_def)
  next
    case False
    from cancel_invalid [OF False] False show ?thesis by (auto simp: valid_request_def)
  qed
  have some: "\<exists>k seat1 g.
          findIndex (exact_match s l r) (bookings S) = Some k \<and>
          k < length (bookings S) \<and> exact_match s l r (bookings S ! k) \<and>
          applyRangeDelta (seats S ! nat s) l r (- 1) = Some seat1 \<and>
          applyRangeDelta (globalTree S) l r (- 1) = Some g \<and>
          cancel S s l r = Some (Cancelled,
            S\<lparr>seats := (seats S)[nat s := seat1], globalTree := g,
               bookings := (bookings S)[k := (bookings S ! k)\<lparr>b_active := False\<rparr>],
               operationCount := js_increment (operationCount S)\<rparr>)"
    if m: ?match
  proof -
    note v = valid_of_match [OF m]
    from m have "findIndex (exact_match s l r) (bookings S) \<noteq> None" by (simp add: findIndex_None)
    then obtain k where fi: "findIndex (exact_match s l r) (bookings S) = Some k" by auto
    note fk = findIndex_Some [OF fi]
    have s: "nat s < length (seats S)" and l0: "0 \<le> l"
      using v wf by (auto simp: valid_request_def wf_ledger_def)
    note w0 = wf_seat [OF wf s]
    from applyRangeDelta_total [OF w0 [THEN conjunct1] l0] obtain seat1 where
      u: "applyRangeDelta (seats S ! nat s) l r (- 1) = Some seat1" by blast
    have "wf_tree (globalTree S)" using wf by (simp add: wf_ledger_def)
    from applyRangeDelta_total [OF this l0] obtain g where
      ug: "applyRangeDelta (globalTree S) l r (- 1) = Some g" by blast
    have "cancel S s l r = Some (Cancelled,
            S\<lparr>seats := (seats S)[nat s := seat1], globalTree := g,
               bookings := (bookings S)[k := (bookings S ! k)\<lparr>b_active := False\<rparr>],
               operationCount := js_increment (operationCount S)\<rparr>)"
      unfolding cancel_valid [OF v] fi using s u ug by (simp add: rd_def wr_def)
    with fi fk u ug show ?thesis by blast
  qed
  have iff: "(\<exists>S'. cancel S s l r = Some (Cancelled, S')) \<longleftrightarrow> ?match"
  proof
    assume "\<exists>S'. cancel S s l r = Some (Cancelled, S')"
    then show ?match
      using none by (cases ?match) (auto split: if_splits)
  next
    assume ?match
    from some [OF this] show "\<exists>S'. cancel S s l r = Some (Cancelled, S')" by blast
  qed
  have cnt: "js_increment (operationCount S)
      = (if operationCount S < 2 ^ 53 then operationCount S + 1 else operationCount S)"
    by (simp add: js_increment_def)
  from iff none some reachable_counter [OF re] cnt show ?thesis by blast
qed

text \<open>
  Claim C4 as stated (whenever no exact active match exists, \<open>cancel\<close> fails with
  booking-not-found) fails for a request that does not pass validation: a fresh ledger
  holds no record at all, and \<open>cancel(-1, 0, 1)\<close> returns the invalid-seat failure.
\<close>

theorem C4_invalid_request_counterexample:
  "bookings example_fresh = [] \<and>
   cancel example_fresh (- 1) 0 1
     = Some (InvalidResourceId (- 1), example_fresh\<lparr>operationCount := 1\<rparr>) \<and>
   InvalidResourceId (- 1) \<noteq> BookingNotFound (- 1) 0 1"
  by (simp add: cancel_def example_fresh_def js_increment_def)

text \<open>
  The amended claim C4 on \<open>example_whole\<close>, a reachable state whose only record is the
  active booking of \<open>[0, 5)\<close>: \<open>cancel(0, 1, 4)\<close>, a strict sub-range, finds no booking
  and leaves the record and the trees as they are; \<open>cancel(3, 0, 5)\<close> names no seat and
  \<open>cancel(0, 4, 2)\<close> no range; \<open>cancel(0, 0, 5)\<close> succeeds.
\<close>

theorem C4_cancel_exact_match_witness:
  "reachable example_whole \<and>
   bookings example_whole = [\<lparr>b_id = 1, b_seatId = 0, b_from = 0, b_to = 5, b_active = True\<rparr>] \<and>
   cancel example_whole 0 1 4 = Some (BookingNotFound 0 1 4, example_whole\<lparr>operationCount := 2\<rparr>) \<and>
   cancel example_whole 3 0 5 = Some (InvalidResourceId 3, example_whole\<lparr>operationCount := 2\<rparr>) \<and>
   cancel example_whole 0 4 2 = Some (InvalidRange 4 2, example_whole\<lparr>operationCount := 2\<rparr>) \<and>
   (\<exists>S'. cancel example_whole 0 0 5 = Some (Cancelled, S'))"
proof -
  note re = example_whole_reachable
  have bs: "bookings example_whole = [\<lparr>b_id = 1, b_seatId = 0, b_from = 0, b_to = 5, b_active = True\<rparr>]"
    and cfg: "numSeats example_whole = 1" "numStations example_whole = 6"
      "js_increment (operationCount example_whole) = 2"
    by (simp_all add: example_whole_def js_increment_def)
  have n1: "\<forall>b \<in> set (bookings example_whole). \<not> exact_match 0 1 4 b"
    and n2: "\<forall>b \<in> set (bookings example_whole). \<not> exact_match 3 0 5 b"
    and n3: "\<forall>b \<in> set (bookings example_whole). \<not> exact_match 0 4 2 b"
    by (simp_all add: bs exact_match_def)
  have y: "\<exists>b \<in> set (bookings example_whole). exact_match 0 0 5 b"
    by (simp add: bs exact_match_def)
  from C4_cancel_exact_match [OF re, of 0 1 4] n1
  have a: "cancel example_whole 0 1 4 = Some (BookingNotFound 0 1 4, example_whole\<lparr>operationCount := 2\<rparr>)"
    by (simp add: cfg)
  from C4_cancel_exact_match [OF re, of 3 0 5] n2
  have b: "cancel example_whole 3 0 5 = Some (InvalidResourceId 3, example_whole\<lparr>operationCount := 2\<rparr>)"
    by (simp add: cfg)
  from C4_cancel_exact_match [OF re, of 0 4 2] n3
  have c: "cancel example_whole 0 4 2 = Some (InvalidRange 4 2, example_whole\<lparr>operationCount := 2\<rparr>)"
    by (simp add: cfg)
  from C4_cancel_exact_match [OF re, of 0 0 5] y
  have d: "\<exists>S'. cancel example_whole 0 0 5 = Some (Cancelled, S')" by blast
  from re bs a b c d show ?thesis by blast
qed

text \<open>
  Claim C5. A successful \<open>book(s, l, r)\<close> followed at once by \<open>cancel(s, l, r)\<close> is claimed
  to be an identity on what the queries of both trees return. In the run below the
  ledger of four segments has seen two bookings of seat 0, each probed and then
  cancelled. \<open>book(0, 0, 1)\<close> then succeeds and \<open>cancel(0, 0, 1)\<close> succeeds; every leaf of
  the seat's tree has the effective value 0 before and after, yet \<open>query(0, 4)\<close> on the
  seat's tree returns -1 before the pair and 0 after it, and \<open>isAvailable(0, 0, 4)\<close>
  returns false before and true after.
\<close>

theorem C5_roundtrip_changes_range_query:
  "do { S0 \<leftarrow> SeatBookingSystem_new 1 5;
        (r1, S1) \<leftarrow> book S0 0 0 2;
        (a1, S2) \<leftarrow> isAvailable S1 0 0 1;
        (r2, S3) \<leftarrow> cancel S2 0 0 2;
        (r3, S4) \<leftarrow> book S3 0 2 4;
        (a2, S5) \<leftarrow> isAvailable S4 0 2 3;
        (r4, S6) \<leftarrow> cancel S5 0 2 4;
        (q1, t1) \<leftarrow> queryRangeMax (seats S6 ! 0) 0 4;
        (a3, S7) \<leftarrow> isAvailable S6 0 0 4;
        (r5, S8) \<leftarrow> book S7 0 0 1;
        (r6, S9) \<leftarrow> cancel S8 0 0 1;
        (q2, t2) \<leftarrow> queryRangeMax (seats S9 ! 0) 0 4;
        (a4, S10) \<leftarrow> isAvailable S9 0 0 4;
        Some (r5, r6,
              map (leaf_value (seats S6 ! 0)) [0, 1, 2, 3], map (leaf_value (seats S9 ! 0)) [0, 1, 2, 3],
              q1, q2, a3, a4) }
   = Some (Booked 3, Cancelled, [0, 0, 0, 0], [0, 0, 0, 0], - 1, 0, False, True)"
  by code_simp

text \<open>
  Claim C6. \<open>globalTree.query(l, r)\<close> is claimed to equal the maximum over the segments
  of \<open>[l, r)\<close> of the number of active records containing the segment. With two segments
  and the single booking \<open>book(0, 0, 1)\<close>, segment 0 is covered by one active record and
  segment 1 by none, and the aggregate query over \<open>[0, 2)\<close> returns 2. The leaf values
  are right in every reachable state (lemma \<open>aggregate_leaf_counts\<close>); the maximum that
  \<open>update\<close> stores at an internal node is not, for the reason given at claim C1.
\<close>

theorem C6_aggregate_overcounts:
  "do { S0 \<leftarrow> SeatBookingSystem_new 1 3;
        (r1, S1) \<leftarrow> book S0 0 0 1;
        (v, g) \<leftarrow> queryRangeMax (globalTree S1) 0 2;
        Some (r1, v, active_count (bookings S1) 0, active_count (bookings S1) 1) }
   = Some (Booked 1, 2, 1, 0)"
  by code_simp

text \<open>
  Claim C7. \<open>book\<close> is claimed to reject as an invalid range every call with \<open>r\<close> beyond
  the segment count. The guard of \<open>book\<close> compares \<open>r\<close> with \<open>numStations\<close>, which is
  one more: with three stations (two segments), \<open>book(0, 2, 3)\<close> is accepted, touches no
  segment of the tree, and is accepted again.
\<close>

theorem C7_range_past_last_segment_accepted:
  "do { S0 \<leftarrow> SeatBookingSystem_new 1 3;
        (r1, S1) \<leftarrow> book S0 0 2 3;
        (r2, S2) \<leftarrow> book S1 0 2 3;
        Some (numSegments S0, r1, r2) }
   = Some (2, Booked 1, Booked 2)"
  by code_simp

text \<open>
  Claim C8. Immediately after a successful \<open>book(s, l, r)\<close>, \<open>isAvailable(s, l, r)\<close> is
  claimed to be false. In the run below the booking of \<open>[0, 4)\<close> succeeds on a seat whose
  root value the earlier cancellations left at -1, and the \<open>isAvailable(0, 0, 4)\<close> that
  follows returns true.
\<close>

theorem C8_available_after_book:
  "do { S0 \<leftarrow> SeatBookingSystem_new 1 5;
        (r1, S1) \<leftarrow> book S0 0 0 2;
        (a1, S2) \<leftarrow> isAvailable S1 0 0 1;
        (r2, S3) \<leftarrow> cancel S2 0 0 2;
        (r3, S4) \<leftarrow> book S3 0 2 4;
        (a2, S5) \<leftarrow> isAvailable S4 0 2 3;
        (r4, S6) \<leftarrow> cancel S5 0 2 4;
        (r5, S7) \<leftarrow> book S6 0 0 4;
        (a3, S8) \<leftarrow> isAvailable S7 0 0 4;
        Some (r5, a3) }
   = Some (Booked 3, True)"
  by code_simp

text \<open>
  Claim C9, as amended. For every segment count \<open>n\<close> with \<open>0 \<le> n\<close> and
  \<open>4 * n \<le> 2 ^ 32 - 1\<close> the constructor allocates two arrays of length \<open>4 * n\<close>; for any
  other \<open>n\<close> it raises an error and builds no tree. On a tree with arrays of length
  \<open>4 * n\<close>, every \<open>query\<close> and \<open>update\<close> with \<open>0 \<le> l < r \<le> n\<close> returns without touching
  an index outside the arrays (an access outside them is the \<open>None\<close> of the model) and
  leaves arrays of the same length. On a tree of zero segments a call with \<open>0 \<le> l\<close> or
  \<open>r \<le> 0\<close> changes nothing and a query returns 0, while a call with \<open>l < 0 < r\<close> reads
  and writes index 0 of the empty arrays.
\<close>

theorem C9_accesses_in_bounds:
  "(0 \<le> k \<and> 4 * k \<le> 2 ^ 32 - 1 \<longrightarrow>
      (\<exists>t0. SegmentTree_new k = Some t0 \<and> wf_tree t0 \<and> seg_n t0 = k)) \<and>
   (k < 0 \<or> 2 ^ 32 - 1 < 4 * k \<longrightarrow> SegmentTree_new k = None) \<and>
   (wf_tree t \<and> 0 \<le> l \<and> l < r \<and> r \<le> seg_n t \<longrightarrow>
      (\<exists>v t'. queryRangeMax t l r = Some (v, t') \<and> wf_tree t' \<and> seg_n t' = seg_n t) \<and>
      (\<exists>t'. applyRangeDelta t l r d = Some t' \<and> wf_tree t' \<and> seg_n t' = seg_n t)) \<and>
   (wf_tree t \<and> seg_n t = 0 \<and> (0 \<le> l \<or> r \<le> 0) \<longrightarrow>
      queryRangeMax t l r = Some (0, t) \<and> applyRangeDelta t l r d = Some t) \<and>
   (wf_tree t \<and> seg_n t = 0 \<and> l < 0 \<and> 0 < r \<longrightarrow>
      queryRangeMax t l r = None \<and> applyRangeDelta t l r d = None)"
proof (intro conjI impI)
  assume "0 \<le> k \<and> 4 * k \<le> 2 ^ 32 - 1"
  then show "\<exists>t0. SegmentTree_new k = Some t0 \<and> wf_tree t0 \<and> seg_n t0 = k"
    by (simp add: SegmentTree_new_def wf_tree_def)
next
  assume "k < 0 \<or> 2 ^ 32 - 1 < 4 * k"
  then show "SegmentTree_new k = None" by (auto simp: SegmentTree_new_def)
next
  assume a: "wf_tree t \<and> 0 \<le> l \<and> l < r \<and> r \<le> seg_n t"
  then have wf: "wf_tree t" and l0: "0 \<le> l" by auto
  from queryRangeMax_total [OF wf l0] obtain v t' where q: "queryRangeMax t l r = Some (v, t')"
    by blast
  from queryRangeMax_wf [OF q wf] q
  show "\<exists>v t'. queryRangeMax t l r = Some (v, t') \<and> wf_tree t' \<and> seg_n t' = seg_n t" by blast
  from applyRangeDelta_total [OF wf l0] obtain t'' where u: "applyRangeDelta t l r d = Some t''"
    by blast
  from applyRangeDelta_wf [OF u wf] u
  show "\<exists>t'. applyRangeDelta t l r d = Some t' \<and> wf_tree t' \<and> seg_n t' = seg_n t" by blast
next
  assume a: "wf_tree t \<and> seg_n t = 0 \<and> (0 \<le> l \<or> r \<le> 0)"
  then show "queryRangeMax t l r = Some (0, t)" by (auto simp: queryRangeMax_def query_outside)
  from a show "applyRangeDelta t l r d = Some t" by (auto simp: applyRangeDelta_def update_outside)
next
  assume a: "wf_tree t \<and> seg_n t = 0 \<and> l < 0 \<and> 0 < r"
  then have e: "tree t = []" "lazy t = []" by (auto simp: wf_tree_def)
  from a e show "queryRangeMax t l r = None"
    by (simp add: queryRangeMax_def query_cover rd_def)
  from a e show "applyRangeDelta t l r d = None"
    by (simp add: applyRangeDelta_def update_cover rd_def)
qed

text \<open>
  Claim C9 as stated (for every \<open>n \<ge> 0\<close> the arrays are allocated, and on a tree of zero
  segments every operation is a no-op) fails twice: \<open>new SegmentTree(2 ^ 30)\<close> asks for an
  array of \<open>2 ^ 32\<close> cells, which is an error; and on \<open>new SegmentTree(0)\<close>,
  \<open>update(-1, 1, 1)\<close> writes index 0 of the empty arrays.
\<close>

theorem C9_large_and_empty_counterexample:
  "SegmentTree_new (2 ^ 30) = None \<and>
   SegmentTree_new 0 = Some empty_tree \<and>
   applyRangeDelta empty_tree (- 1) 1 1 = None"
  by (simp add: SegmentTree_new_def empty_tree_def applyRangeDelta_def update_cover rd_def)

text \<open>
  The amended claim C9 at concrete inputs: \<open>example_tree\<close> has a pending lazy value at its
  root, which \<open>query(1, 2)\<close> and \<open>update(1, 3, 1)\<close> push down to the children and
  grandchildren; the tree of no segment; and a segment count too large to allocate.
\<close>

theorem C9_accesses_in_bounds_witness:
  "SegmentTree_new 4 \<bind> (\<lambda>t. applyRangeDelta t 0 4 1) = Some example_tree \<and>
   wf_tree example_tree \<and>
   queryRangeMax example_tree 1 2 = Some (1, example_tree_queried) \<and>
   wf_tree example_tree_queried \<and>
   applyRangeDelta example_tree 1 3 1 = Some example_tree_updated \<and>
   wf_tree example_tree_updated \<and>
   wf_tree empty_tree \<and>
   queryRangeMax empty_tree 0 1 = Some (0, empty_tree) \<and>
   applyRangeDelta empty_tree 0 1 1 = Some empty_tree \<and>
   queryRangeMax empty_tree (- 1) 1 = None \<and>
   SegmentTree_new (2 ^ 30) = None"
proof -
  have n: "SegmentTree_new 4 \<bind> (\<lambda>t. applyRangeDelta t 0 4 1) = Some example_tree"
    by code_simp
  have w: "wf_tree example_tree" and wz: "wf_tree empty_tree" and z: "seg_n empty_tree = 0"
    and n4: "seg_n example_tree = 4"
    by (simp_all add: wf_tree_def example_tree_def empty_tree_def)
  have q: "queryRangeMax example_tree 1 2 = Some (1, example_tree_queried)" by code_simp
  have u: "applyRangeDelta example_tree 1 3 1 = Some example_tree_updated" by code_simp
  from C9_accesses_in_bounds [of 4 example_tree 1 2 1] w n4 q
  have wq: "wf_tree example_tree_queried" by auto
  from C9_accesses_in_bounds [of 4 example_tree 1 3 1] w n4 u
  have wu: "wf_tree example_tree_updated" by auto
  from C9_accesses_in_bounds [of "2 ^ 30" empty_tree 0 1 1] wz z
  have c: "queryRangeMax empty_tree 0 1 = Some (0, empty_tree)"
    "applyRangeDelta empty_tree 0 1 1 = Some empty_tree" "SegmentTree_new (2 ^ 30) = None"
    by auto
  from C9_accesses_in_bounds [of 0 empty_tree "- 1" 1 1] wz z
  have d: "queryRangeMax empty_tree (- 1) 1 = None" by auto
  from n w q wq u wu wz c d show ?thesis by blast
qed

text \<open>
  Claim C10. \<open>getSeatStatus\<close> with a seat outside \<open>[0, numSeats)\<close> returns \<open>'available'\<close>
  (lemma \<open>getSeatStatus_invalid_seat\<close>), and an invalid seat is claimed to be
  indistinguishable from a fully free seat. In the run below, on a ledger of one seat
  and five segments, both bookings of seat 0 are cancelled: no record is active and
  every leaf of the seat's tree has the effective value 0. \<open>getSeatStatus(0)\<close> then
  returns \<open>'partial'\<close> for the free seat, while \<open>getSeatStatus(7)\<close> returns \<open>'available'\<close>
  for the invalid one.
\<close>

theorem C10_free_seat_reports_partial:
  "do { S0 \<leftarrow> SeatBookingSystem_new 1 6;
        (r1, S1) \<leftarrow> book S0 0 2 5;
        (r2, S2) \<leftarrow> book S1 0 0 2;
        (s1, S3) \<leftarrow> getSeatStatus S2 0;
        (r3, S4) \<leftarrow> cancel S3 0 2 5;
        (r4, S5) \<leftarrow> cancel S4 0 0 2;
        (s2, S6) \<leftarrow> getSeatStatus S5 0;
        (s3, S7) \<leftarrow> getSeatStatus S6 7;
        Some ([r1, r2, r3, r4], getActiveBookings S5,
              map (leaf_value (seats S5 ! 0)) [0, 1, 2, 3, 4], s2, s3) }
   = Some ([Booked 1, Booked 2, Cancelled, Cancelled], 0, [0, 0, 0, 0, 0],
           ''partial'', ''available'')"
  by code_simp

end
